theory Spec2Isabelle
  imports Main
begin

section \<open>The task record model (types/index.ts)\<close>

text \<open>
  The two enumerations are TypeScript string enums: at run time a state or a priority is
  the string itself, and a value outside the enumeration can reach the code (the
  \<^verbatim>\<open>default\<close> branches of the two \<^verbatim>\<open>switch\<close> statements exist for
  it). They are modelled as strings, with the members as constants.
\<close>

type_synonym TaskState = string

definition NEW :: TaskState where "NEW = ''NEW''"
definition IN_PROGRESS :: TaskState where "IN_PROGRESS = ''IN_PROGRESS''"
definition COMPLETED :: TaskState where "COMPLETED = ''COMPLETED''"
definition POSTPONED :: TaskState where "POSTPONED = ''POSTPONED''"

type_synonym TaskPriority = string

definition HIGH :: TaskPriority where "HIGH = ''HIGH''"
definition MEDIUM :: TaskPriority where "MEDIUM = ''MEDIUM''"
definition LOW :: TaskPriority where "LOW = ''LOW''"

text \<open>
  A JavaScript \<^verbatim>\<open>Date\<close> holds a time value: a whole number of milliseconds since
  the epoch, or NaN (an invalid date).
\<close>

datatype Date = Date int | InvalidDate

text \<open>\<^verbatim>\<open>a >= b\<close> on two dates compares the time values; with NaN on either side it is false.\<close>

fun date_ge :: "Date \<Rightarrow> Date \<Rightarrow> bool" where
  "date_ge (Date a) (Date b) = (b \<le> a)"
| "date_ge _ _ = False"

text \<open>The field \<^verbatim>\<open>id\<close> is \<open>task_id\<close> here (\<open>id\<close> is the identity function of HOL).\<close>

record Task =
  task_id :: string
  title :: string
  description :: string
  state :: TaskState
  priority :: TaskPriority
  createdAt :: Date
  updatedAt :: Date

section \<open>Platform: dates as ISO-8601 strings\<close>

text \<open>
  \<^verbatim>\<open>Date.prototype.toISOString\<close>: the proleptic Gregorian calendar date and the time of
  day in UTC, as \<^verbatim>\<open>YYYY-MM-DDTHH:mm:ss.sssZ\<close>, the year with a sign and six digits
  outside 0..9999.
\<close>

definition msPerDay :: int where "msPerDay = 86400000"

text \<open>
  A day of a 400-year era (146097 days, the era starting on a 1st of March) to the year of
  the era and the day of that year: a century has 36524 days but for the last one of the
  era, four years have 1461 days but for the last four of such a century, a year has 365
  days but for the last one of its four.
\<close>

definition year_of_era :: "int \<Rightarrow> int \<times> int" where
  "year_of_era doe =
     (let c = min 3 (doe div 36524);
          doc = doe - 36524 * c;
          q = doc div 1461;
          doq = doc mod 1461;
          yq = min 3 (doq div 365)
      in (100 * c + 4 * q + yq, doq - 365 * yq))"

text \<open>Day number (days since 1970-01-01) to (year, month, day).\<close>

definition civil_from_days :: "int \<Rightarrow> int \<times> int \<times> int" where
  "civil_from_days z =
     (let z' = z + 719468;
          era = z' div 146097;
          (yoe, doy) = year_of_era (z' mod 146097);
          mp = (5 * doy + 2) div 153;
          d = doy - (153 * mp + 2) div 5 + 1;
          m = (if mp < 10 then mp + 3 else mp - 9);
          y = yoe + era * 400 + (if m \<le> 2 then 1 else 0)
      in (y, m, d))"

text \<open>(year, month, day) to the day number.\<close>

definition days_from_civil :: "int \<Rightarrow> int \<Rightarrow> int \<Rightarrow> int" where
  "days_from_civil y m d =
     (let y' = y - (if m \<le> 2 then 1 else 0);
          era = y' div 400;
          yoe = y' mod 400;
          doy = (153 * (if m > 2 then m - 3 else m + 9) + 2) div 5 + d - 1;
          doe = yoe * 365 + yoe div 4 - yoe div 100 + doy
      in era * 146097 + doe - 719468)"

definition digit_char :: "nat \<Rightarrow> char" where
  "digit_char n = char_of (48 + n)"

definition digit_val :: "char \<Rightarrow> nat option" where
  "digit_val c = (let n = (of_char c :: nat) in if 48 \<le> n \<and> n \<le> 57 then Some (n - 48) else None)"

text \<open>\<open>digits k n\<close>: the last \<open>k\<close> decimal digits of \<open>n\<close>, zero-padded.\<close>

fun digits :: "nat \<Rightarrow> nat \<Rightarrow> string" where
  "digits 0 n = []"
| "digits (Suc k) n = digits k (n div 10) @ [digit_char (n mod 10)]"

definition year_string :: "int \<Rightarrow> string" where
  "year_string y =
     (if 0 \<le> y \<and> y \<le> 9999 then digits 4 (nat y)
      else (if y < 0 then ''-'' else ''+'') @ digits 6 (nat \<bar>y\<bar>))"

definition toISOString :: "int \<Rightarrow> string" where
  "toISOString t =
     (let day = t div msPerDay;
          ms = t mod msPerDay;
          (y, m, d) = civil_from_days day
      in year_string y @ ''-'' @ digits 2 (nat m) @ ''-'' @ digits 2 (nat d) @ ''T''
         @ digits 2 (nat (ms div 3600000)) @ '':''
         @ digits 2 (nat (ms div 60000 mod 60)) @ '':''
         @ digits 2 (nat (ms div 1000 mod 60)) @ ''.''
         @ digits 3 (nat (ms mod 1000)) @ ''Z'')"

section \<open>Platform: JSON text\<close>

text \<open>
  A string is a list of 8-bit characters here, so of a JavaScript string the characters up
  to U+00FF are represented. JSON numbers are represented when they are integers.
\<close>

datatype json =
    JNull
  | JBool bool
  | JNumber int
  | JString string
  | JArray "json list"
  | JObject "(string \<times> json) list"

definition hex_char :: "nat \<Rightarrow> char" where
  "hex_char n = (if n < 10 then char_of (48 + n) else char_of (87 + n))"

text \<open>\<^verbatim>\<open>QuoteJSONString\<close>: how \<^verbatim>\<open>JSON.stringify\<close> writes one character of a string.\<close>

definition quote_char :: "char \<Rightarrow> string" where
  "quote_char c =
     (let n = (of_char c :: nat) in
      if n = 8 then [CHR 0x5C, CHR ''b'']
      else if n = 9 then [CHR 0x5C, CHR ''t'']
      else if n = 10 then [CHR 0x5C, CHR ''n'']
      else if n = 12 then [CHR 0x5C, CHR ''f'']
      else if n = 13 then [CHR 0x5C, CHR ''r'']
      else if n = 34 then [CHR 0x5C, CHR 0x22]
      else if n = 92 then [CHR 0x5C, CHR 0x5C]
      else if n < 32 then [CHR 0x5C, CHR ''u'', CHR ''0'', CHR ''0'', hex_char (n div 16), hex_char (n mod 16)]
      else [c])"

definition QuoteJSONString :: "string \<Rightarrow> string" where
  "QuoteJSONString s = CHR 0x22 # concat (map quote_char s) @ [CHR 0x22]"

text \<open>Decimal digits of a natural number, without padding.\<close>

fun nat_string :: "nat \<Rightarrow> string" where
  "nat_string n = (if n < 10 then [digit_char n] else nat_string (n div 10) @ [digit_char (n mod 10)])"

declare nat_string.simps [simp del]

definition int_string :: "int \<Rightarrow> string" where
  "int_string i = (if i < 0 then ''-'' @ nat_string (nat (- i)) else nat_string (nat i))"

text \<open>\<^verbatim>\<open>JSON.stringify\<close> on a JSON value: compact, no white space.\<close>

fun JSON_stringify :: "json \<Rightarrow> string"
  and stringify_elements :: "json list \<Rightarrow> string"
  and stringify_members :: "(string \<times> json) list \<Rightarrow> string" where
  "JSON_stringify JNull = ''null''"
| "JSON_stringify (JBool b) = (if b then ''true'' else ''false'')"
| "JSON_stringify (JNumber i) = int_string i"
| "JSON_stringify (JString s) = QuoteJSONString s"
| "JSON_stringify (JArray xs) = ''['' @ stringify_elements xs @ '']''"
| "JSON_stringify (JObject ms) = ''{'' @ stringify_members ms @ ''}''"
| "stringify_elements [] = []"
| "stringify_elements [x] = JSON_stringify x"
| "stringify_elements (x # y # ys) = JSON_stringify x @ '','' @ stringify_elements (y # ys)"
| "stringify_members [] = []"
| "stringify_members [(k, v)] = QuoteJSONString k @ '':'' @ JSON_stringify v"
| "stringify_members ((k, v) # m # ms) =
     QuoteJSONString k @ '':'' @ JSON_stringify v @ '','' @ stringify_members (m # ms)"

text \<open>
  \<^verbatim>\<open>Date.prototype.toJSON\<close>: the ISO string of a valid date, \<^verbatim>\<open>null\<close> for an
  invalid one.
\<close>

fun Date_toJSON :: "Date \<Rightarrow> json" where
  "Date_toJSON (Date t) = JString (toISOString t)"
| "Date_toJSON InvalidDate = JNull"

text \<open>
  What \<^verbatim>\<open>JSON.stringify\<close> sees of a task object: its seven properties. (The order of
  the keys in the text is the order the object was built in; the model fixes the order of
  the factory's object literal.)
\<close>

definition Task_toJSON :: "Task \<Rightarrow> json" where
  "Task_toJSON t = JObject
     [(''id'', JString (task_id t)),
      (''title'', JString (title t)),
      (''description'', JString (description t)),
      (''state'', JString (state t)),
      (''priority'', JString (priority t)),
      (''createdAt'', Date_toJSON (createdAt t)),
      (''updatedAt'', Date_toJSON (updatedAt t))]"

definition tasks_toJSON :: "Task list \<Rightarrow> json" where
  "tasks_toJSON ts = JArray (map Task_toJSON ts)"

section \<open>The world the service runs in\<close>

text \<open>
  An observer is an object with an \<^verbatim>\<open>update\<close> method; the subject compares observers
  by identity, so an observer is modelled by its identity. A call of \<^verbatim>\<open>update\<close> is
  recorded in \<open>updateCalls\<close>, a call of the storage port's \<^verbatim>\<open>setItem\<close> in
  \<open>setItemCalls\<close>, both in the order the calls are made. Callbacks and the storage port
  are taken to return normally and not to call back into the service.

  \<open>observers\<close> and \<open>tasks\<close> are the two private fields of the one \<^verbatim>\<open>TaskSubject\<close>
  the service owns. \<open>clock\<close> is the sequence of readings the system clock gives to the
  successive \<^verbatim>\<open>new Date()\<close> calls (time values, taken to be in the range of a
  date), \<open>ticks\<close> the number of readings taken so far; \<open>uuids\<close> and \<open>drawn\<close> are the
  same for \<^verbatim>\<open>uuidv4()\<close>, a function of the uuid package. Nothing is assumed of either
  sequence: what a statement needs of them is among its hypotheses.
\<close>

type_synonym TaskObserver = nat

record world =
  observers :: "TaskObserver list"
  tasks :: "Task list"
  storage :: "string \<rightharpoonup> string"
  clock :: "nat \<Rightarrow> int"
  ticks :: nat
  uuids :: "nat \<Rightarrow> string"
  drawn :: nat
  updateCalls :: "(TaskObserver \<times> Task list) list"
  setItemCalls :: "(string \<times> string) list"

definition new_Date :: "world \<Rightarrow> Date \<times> world" where
  "new_Date w = (Date (clock w (ticks w)), w\<lparr>ticks := Suc (ticks w)\<rparr>)"

definition uuidv4 :: "world \<Rightarrow> string \<times> world" where
  "uuidv4 w = (uuids w (drawn w), w\<lparr>drawn := Suc (drawn w)\<rparr>)"

subsection \<open>Storage port (StorageAdapter, LocalStorageAdapter)\<close>

definition getItem :: "string \<Rightarrow> world \<Rightarrow> string option" where
  "getItem key w = storage w key"

definition setItem :: "string \<Rightarrow> string \<Rightarrow> world \<Rightarrow> world" where
  "setItem key v w =
     w\<lparr>storage := (storage w)(key \<mapsto> v), setItemCalls := setItemCalls w @ [(key, v)]\<rparr>"

definition removeItem :: "string \<Rightarrow> world \<Rightarrow> world" where
  "removeItem key w = w\<lparr>storage := (storage w)(key := None)\<rparr>"

section \<open>Task store (patterns/observer/TaskSubject.ts)\<close>

definition attach :: "TaskObserver \<Rightarrow> world \<Rightarrow> world" where
  "attach observer w = w\<lparr>observers := observers w @ [observer]\<rparr>"

text \<open>\<^verbatim>\<open>Array.prototype.indexOf\<close>: the first index holding the element, or -1.\<close>

fun indexOf :: "'a list \<Rightarrow> 'a \<Rightarrow> int" where
  "indexOf [] x = -1"
| "indexOf (y # ys) x =
     (if y = x then 0 else (let i = indexOf ys x in if i = -1 then -1 else i + 1))"

text \<open>\<^verbatim>\<open>splice(index, 1)\<close>: removes the element at \<open>index\<close>.\<close>

definition splice1 :: "int \<Rightarrow> 'a list \<Rightarrow> 'a list" where
  "splice1 index xs = take (nat index) xs @ drop (nat index + 1) xs"

definition detach :: "TaskObserver \<Rightarrow> world \<Rightarrow> world" where
  "detach observer w =
     (let index = indexOf (observers w) observer
      in if index \<noteq> -1 then w\<lparr>observers := splice1 index (observers w)\<rparr> else w)"

definition update :: "TaskObserver \<Rightarrow> Task list \<Rightarrow> world \<Rightarrow> world" where
  "update observer ts w = w\<lparr>updateCalls := updateCalls w @ [(observer, ts)]\<rparr>"

definition notify :: "world \<Rightarrow> world" where
  "notify w = fold (\<lambda>observer w'. update observer (tasks w') w') (observers w) w"

definition setTasks :: "Task list \<Rightarrow> world \<Rightarrow> world" where
  "setTasks ts w = notify (w\<lparr>tasks := ts\<rparr>)"

definition getTasks :: "world \<Rightarrow> Task list" where
  "getTasks w = tasks w"

section \<open>State handlers (patterns/state/TaskStateHandlers.ts)\<close>

datatype TaskStateHandler =
  NewStateHandler | InProgressStateHandler | CompletedStateHandler | PostponedStateHandler

text \<open>
  \<^verbatim>\<open>handleState\<close> writes into the task object it is given; the model returns the task
  as it is after the call.
\<close>

fun handleState :: "TaskStateHandler \<Rightarrow> Task \<Rightarrow> world \<Rightarrow> Task \<times> world" where
  "handleState NewStateHandler task w =
     (let task1 = task\<lparr>state := NEW\<rparr>; (now, w1) = new_Date w
      in (task1\<lparr>updatedAt := now\<rparr>, w1))"
| "handleState InProgressStateHandler task w =
     (let task1 = task\<lparr>state := IN_PROGRESS\<rparr>; (now, w1) = new_Date w
      in (task1\<lparr>updatedAt := now\<rparr>, w1))"
| "handleState CompletedStateHandler task w =
     (let task1 = task\<lparr>state := COMPLETED\<rparr>; (now, w1) = new_Date w
      in (task1\<lparr>updatedAt := now\<rparr>, w1))"
| "handleState PostponedStateHandler task w =
     (let task1 = task\<lparr>state := POSTPONED\<rparr>; (now, w1) = new_Date w
      in (task1\<lparr>updatedAt := now\<rparr>, w1))"

fun getNextState :: "TaskStateHandler \<Rightarrow> TaskState option" where
  "getNextState NewStateHandler = Some IN_PROGRESS"
| "getNextState InProgressStateHandler = Some COMPLETED"
| "getNextState CompletedStateHandler = None"
| "getNextState PostponedStateHandler = Some IN_PROGRESS"

fun getPreviousState :: "TaskStateHandler \<Rightarrow> TaskState option" where
  "getPreviousState NewStateHandler = None"
| "getPreviousState InProgressStateHandler = Some NEW"
| "getPreviousState CompletedStateHandler = Some IN_PROGRESS"
| "getPreviousState PostponedStateHandler = Some NEW"

section \<open>Priority strategies (patterns/strategy/PriorityStrategies.ts)\<close>

datatype PriorityStrategy =
  HighPriorityStrategy | MediumPriorityStrategy | LowPriorityStrategy

fun getPriorityLevel :: "PriorityStrategy \<Rightarrow> int" where
  "getPriorityLevel HighPriorityStrategy = 3"
| "getPriorityLevel MediumPriorityStrategy = 2"
| "getPriorityLevel LowPriorityStrategy = 1"

fun getColor :: "PriorityStrategy \<Rightarrow> string" where
  "getColor HighPriorityStrategy = ''#ff4d4d''"
| "getColor MediumPriorityStrategy = ''#ffa64d''"
| "getColor LowPriorityStrategy = ''#4dff4d''"

definition getStrategy :: "TaskPriority \<Rightarrow> PriorityStrategy" where
  "getStrategy p =
     (if p = HIGH then HighPriorityStrategy
      else if p = MEDIUM then MediumPriorityStrategy
      else if p = LOW then LowPriorityStrategy
      else MediumPriorityStrategy)"

section \<open>Task factory (patterns/factory/TaskFactory.ts)\<close>

definition factory_createTask ::
  "string \<Rightarrow> string \<Rightarrow> TaskPriority \<Rightarrow> world \<Rightarrow> Task \<times> world" where
  "factory_createTask ttl descr prio w =
     (let (now, w1) = new_Date w;
          (u, w2) = uuidv4 w1
      in (\<lparr>task_id = u, title = ttl, description = descr, state = NEW, priority = prio,
           createdAt = now, updatedAt = now\<rparr>, w2))"

section \<open>Task service (services/TaskService.ts)\<close>

definition STORAGE_KEY :: string where "STORAGE_KEY = ''tasks''"

definition saveTasks :: "world \<Rightarrow> world" where
  "saveTasks w = setItem STORAGE_KEY (JSON_stringify (tasks_toJSON (getTasks w))) w"

definition createTask :: "string \<Rightarrow> string \<Rightarrow> TaskPriority \<Rightarrow> world \<Rightarrow> Task \<times> world" where
  "createTask ttl descr prio w =
     (let (task, w1) = factory_createTask ttl descr prio w;
          ts = getTasks w1 @ [task];
          w2 = setTasks ts w1;
          w3 = saveTasks w2
      in (task, w3))"

text \<open>
  The callback of \<^verbatim>\<open>map\<close> in \<^verbatim>\<open>updateTask\<close> evaluates \<^verbatim>\<open>new Date()\<close> once for
  each stored task with the id of the argument, so the map reads the clock as it goes.
\<close>

fun updateTask_map :: "Task \<Rightarrow> Task list \<Rightarrow> world \<Rightarrow> Task list \<times> world" where
  "updateTask_map task [] w = ([], w)"
| "updateTask_map task (t # ts) w =
     (if task_id t = task_id task
      then (let (now, w1) = new_Date w;
                (ts', w2) = updateTask_map task ts w1
            in (task\<lparr>updatedAt := now\<rparr> # ts', w2))
      else (let (ts', w2) = updateTask_map task ts w
            in (t # ts', w2)))"

definition updateTask :: "Task \<Rightarrow> world \<Rightarrow> world" where
  "updateTask task w =
     (let (ts, w1) = updateTask_map task (getTasks w) w;
          w2 = setTasks ts w1
      in saveTasks w2)"

definition deleteTask :: "string \<Rightarrow> world \<Rightarrow> world" where
  "deleteTask taskId w =
     (let ts = filter (\<lambda>t. task_id t \<noteq> taskId) (getTasks w);
          w1 = setTasks ts w
      in saveTasks w1)"

definition getHandlerForState :: "TaskState \<Rightarrow> TaskStateHandler option" where
  "getHandlerForState s =
     (if s = NEW then Some NewStateHandler
      else if s = IN_PROGRESS then Some InProgressStateHandler
      else if s = COMPLETED then Some CompletedStateHandler
      else if s = POSTPONED then Some PostponedStateHandler
      else None)"

definition getPossibleNextState :: "Task \<Rightarrow> TaskState option" where
  "getPossibleNextState task =
     (case getHandlerForState (state task) of
        Some handler \<Rightarrow> getNextState handler
      | None \<Rightarrow> None)"

definition getPossiblePreviousState :: "Task \<Rightarrow> TaskState option" where
  "getPossiblePreviousState task =
     (case getHandlerForState (state task) of
        Some handler \<Rightarrow> getPreviousState handler
      | None \<Rightarrow> None)"

text \<open>
  \<^verbatim>\<open>changeTaskState\<close> returns nothing; the first component of the model's result is the
  caller's task object after the call, which the handler has written into.
\<close>

definition changeTaskState :: "Task \<Rightarrow> TaskState \<Rightarrow> world \<Rightarrow> Task \<times> world" where
  "changeTaskState task newState w =
     (case getHandlerForState newState of
        Some handler \<Rightarrow>
          (let (task1, w1) = handleState handler task w
           in (task1, updateTask task1 w1))
      | None \<Rightarrow> (task, w))"

definition attachObserver :: "TaskObserver \<Rightarrow> world \<Rightarrow> world" where
  "attachObserver observer w = attach observer w"

definition detachObserver :: "TaskObserver \<Rightarrow> world \<Rightarrow> world" where
  "detachObserver observer w = detach observer w"

section \<open>Platform: reading dates and JSON text back\<close>

text \<open>
  Three ways a load can end without a collection: \<open>SyntaxError\<close> is raised by
  \<^verbatim>\<open>JSON.parse\<close> on text that is not JSON, \<open>TypeError\<close> by the service's own code on
  a parsed value it cannot map over or read a property of. \<open>Unmodelled\<close> is not an
  outcome of the program: it marks the inputs on which this model does not say what
  JavaScript does (numbers with a fraction or an exponent, escapes above U+00FF, date
  strings in another format than the one \<^verbatim>\<open>toISOString\<close> writes, stored records
  that are not task-shaped).
\<close>

datatype error = SyntaxError | TypeError | Unmodelled

subsection \<open>Date.parse on the ISO format\<close>

fun digits_acc :: "nat \<Rightarrow> string \<Rightarrow> nat option" where
  "digits_acc a [] = Some a"
| "digits_acc a (c # cs) =
     (case digit_val c of None \<Rightarrow> None | Some d \<Rightarrow> digits_acc (10 * a + d) cs)"

definition digits_value :: "string \<Rightarrow> nat option" where
  "digits_value cs = digits_acc 0 cs"

definition maxTime :: int where "maxTime = 8640000000000000"

text \<open>\<^verbatim>\<open>TimeClip\<close>: a time value out of range is NaN.\<close>

definition TimeClip :: "int \<Rightarrow> Date" where
  "TimeClip t = (if \<bar>t\<bar> \<le> maxTime then Date t else InvalidDate)"

fun valid_Date :: "Date \<Rightarrow> bool" where
  "valid_Date (Date t) = (\<bar>t\<bar> \<le> maxTime)"
| "valid_Date InvalidDate = False"

text \<open>
  The part after the year, \<^verbatim>\<open>-MM-DDTHH:mm:ss.sssZ\<close>, with the year already read:
  the time value, if the text has that shape and the fields are in range.
\<close>

definition iso_fields :: "int \<Rightarrow> string \<Rightarrow> int option" where
  "iso_fields y s =
     (if length s = 20 \<and> s ! 0 = CHR ''-'' \<and> s ! 3 = CHR ''-'' \<and> s ! 6 = CHR ''T'' \<and>
         s ! 9 = CHR '':'' \<and> s ! 12 = CHR '':'' \<and> s ! 15 = CHR ''.'' \<and> s ! 19 = CHR ''Z''
      then
        (case (digits_value [s ! 1, s ! 2], digits_value [s ! 4, s ! 5],
               digits_value [s ! 7, s ! 8], digits_value [s ! 10, s ! 11],
               digits_value [s ! 13, s ! 14], digits_value [s ! 16, s ! 17, s ! 18]) of
           (Some mo, Some d, Some h, Some mi, Some sec, Some ms) \<Rightarrow>
             (if 1 \<le> mo \<and> mo \<le> 12 \<and> 1 \<le> d \<and> d \<le> 31 \<and> mi \<le> 59 \<and> sec \<le> 59 \<and>
                 (h \<le> 23 \<or> (h = 24 \<and> mi = 0 \<and> sec = 0 \<and> ms = 0))
              then Some (days_from_civil y (int mo) (int d) * msPerDay
                         + int h * 3600000 + int mi * 60000 + int sec * 1000 + int ms)
              else None)
         | _ \<Rightarrow> None)
      else None)"

text \<open>
  The year is four digits, or a sign and six digits (minus zero is not a year). \<open>None\<close>:
  the text is not in the format.
\<close>

definition iso_time :: "string \<Rightarrow> int option" where
  "iso_time s =
     (case s of
        [] \<Rightarrow> None
      | c # cs \<Rightarrow>
          if c = CHR ''+'' \<or> c = CHR ''-'' then
            (case digits_value (take 6 cs) of
               None \<Rightarrow> None
             | Some y \<Rightarrow>
                 if length cs < 6 \<or> (c = CHR ''-'' \<and> y = 0) then None
                 else iso_fields (if c = CHR ''-'' then - int y else int y) (drop 6 cs))
          else
            (case digits_value (take 4 s) of
               None \<Rightarrow> None
             | Some y \<Rightarrow> if length s < 4 then None else iso_fields (int y) (drop 4 s)))"

text \<open>\<^verbatim>\<open>new Date(s)\<close> for a string: the parsed time value, clipped.\<close>

definition Date_of_string :: "string \<Rightarrow> error + Date" where
  "Date_of_string s = (case iso_time s of None \<Rightarrow> Inl Unmodelled | Some t \<Rightarrow> Inr (TimeClip t))"

subsection \<open>JSON.parse\<close>

definition is_ws :: "char \<Rightarrow> bool" where
  "is_ws c \<longleftrightarrow> c = CHR '' '' \<or> c = CHR 0x09 \<or> c = CHR 0x0A \<or> c = CHR 0x0D"

fun skip_ws :: "string \<Rightarrow> string" where
  "skip_ws [] = []"
| "skip_ws (c # cs) = (if is_ws c then skip_ws cs else c # cs)"

definition hex_val :: "char \<Rightarrow> nat option" where
  "hex_val c =
     (let n = (of_char c :: nat) in
      if 48 \<le> n \<and> n \<le> 57 then Some (n - 48)
      else if 97 \<le> n \<and> n \<le> 102 then Some (n - 87)
      else if 65 \<le> n \<and> n \<le> 70 then Some (n - 55)
      else None)"

text \<open>The character a one-letter escape stands for.\<close>

definition unescape :: "char \<Rightarrow> char option" where
  "unescape e =
     (if e = CHR 0x22 then Some (CHR 0x22)
      else if e = CHR 0x5C then Some (CHR 0x5C)
      else if e = CHR ''/'' then Some (CHR ''/'')
      else if e = CHR ''b'' then Some (CHR 0x08)
      else if e = CHR ''f'' then Some (CHR 0x0C)
      else if e = CHR ''n'' then Some (CHR 0x0A)
      else if e = CHR ''r'' then Some (CHR 0x0D)
      else if e = CHR ''t'' then Some (CHR 0x09)
      else None)"

text \<open>The characters of a string after its opening quote, up to the closing one.\<close>

fun parse_chars :: "string \<Rightarrow> error + string \<times> string" where
  "parse_chars [] = Inl SyntaxError"
| "parse_chars (c # cs) =
     (if c = CHR 0x22 then Inr ([], cs)
      else if c = CHR 0x5C then
        (case cs of
           [] \<Rightarrow> Inl SyntaxError
         | e # r \<Rightarrow>
             if e = CHR ''u'' then
               (case r of
                  h1 # h2 # h3 # h4 # r' \<Rightarrow>
                    (case (hex_val h1, hex_val h2, hex_val h3, hex_val h4) of
                       (Some a, Some b, Some c', Some d) \<Rightarrow>
                         if a = 0 \<and> b = 0 then
                           (case parse_chars r' of
                              Inl err \<Rightarrow> Inl err
                            | Inr (str, rest) \<Rightarrow> Inr (char_of (16 * c' + d) # str, rest))
                         else Inl Unmodelled
                     | _ \<Rightarrow> Inl SyntaxError)
                | _ \<Rightarrow> Inl SyntaxError)
             else
               (case unescape e of
                  None \<Rightarrow> Inl SyntaxError
                | Some c' \<Rightarrow>
                    (case parse_chars r of
                       Inl err \<Rightarrow> Inl err
                     | Inr (str, rest) \<Rightarrow> Inr (c' # str, rest))))
      else if (of_char c :: nat) < 32 then Inl SyntaxError
      else
        (case parse_chars cs of
           Inl err \<Rightarrow> Inl err
         | Inr (str, rest) \<Rightarrow> Inr (c # str, rest)))"

definition is_digit :: "char \<Rightarrow> bool" where
  "is_digit c \<longleftrightarrow> digit_val c \<noteq> None"

text \<open>
  A number: an optional minus sign and decimal digits, without a leading zero before
  another digit. A fraction or an exponent after them is outside the model.
\<close>

definition parse_number :: "string \<Rightarrow> error + json \<times> string" where
  "parse_number s =
     (let neg = (s \<noteq> [] \<and> hd s = CHR ''-'');
          s1 = (if neg then tl s else s);
          ds = takeWhile is_digit s1;
          rest = dropWhile is_digit s1
      in if ds = [] \<or> (length ds > 1 \<and> hd ds = CHR ''0'') then Inl SyntaxError
         else if rest \<noteq> [] \<and> hd rest \<in> {CHR ''.'', CHR ''e'', CHR ''E''} then Inl Unmodelled
         else (case digits_value ds of
                 None \<Rightarrow> Inl SyntaxError
               | Some n \<Rightarrow> Inr (JNumber (if neg then - int n else int n), rest)))"

definition parse_literal :: "string \<Rightarrow> json \<Rightarrow> string \<Rightarrow> error + json \<times> string" where
  "parse_literal name v s =
     (if take (length name) s = name then Inr (v, drop (length name) s) else Inl SyntaxError)"

text \<open>
  The value parser. Its first argument bounds the number of nested calls; the length of
  the text is always enough (shown below for the texts \<^verbatim>\<open>JSON.stringify\<close> writes).
  \<open>parse_elements\<close> reads the values of a non-empty array up to the closing bracket,
  \<open>parse_members\<close> the members of a non-empty object up to the closing brace.
\<close>

fun parse_value :: "nat \<Rightarrow> string \<Rightarrow> error + json \<times> string"
  and parse_elements :: "nat \<Rightarrow> string \<Rightarrow> error + json list \<times> string"
  and parse_members :: "nat \<Rightarrow> string \<Rightarrow> error + (string \<times> json) list \<times> string" where
  "parse_value 0 s = Inl SyntaxError"
| "parse_value (Suc n) s =
     (case skip_ws s of
        [] \<Rightarrow> Inl SyntaxError
      | c # cs \<Rightarrow>
          if c = CHR ''n'' then parse_literal ''ull'' JNull cs
          else if c = CHR ''t'' then parse_literal ''rue'' (JBool True) cs
          else if c = CHR ''f'' then parse_literal ''alse'' (JBool False) cs
          else if c = CHR 0x22 then
            (case parse_chars cs of
               Inl err \<Rightarrow> Inl err
             | Inr (str, rest) \<Rightarrow> Inr (JString str, rest))
          else if c = CHR ''['' then
            (case skip_ws cs of
               [] \<Rightarrow> Inl SyntaxError
             | d # r \<Rightarrow>
                 if d = CHR '']'' then Inr (JArray [], r)
                 else (case parse_elements n cs of
                         Inl err \<Rightarrow> Inl err
                       | Inr (xs, rest) \<Rightarrow> Inr (JArray xs, rest)))
          else if c = CHR ''{'' then
            (case skip_ws cs of
               [] \<Rightarrow> Inl SyntaxError
             | d # r \<Rightarrow>
                 if d = CHR ''}'' then Inr (JObject [], r)
                 else (case parse_members n cs of
                         Inl err \<Rightarrow> Inl err
                       | Inr (ms, rest) \<Rightarrow> Inr (JObject ms, rest)))
          else parse_number (c # cs))"
| "parse_elements 0 s = Inl SyntaxError"
| "parse_elements (Suc n) s =
     (case parse_value n s of
        Inl err \<Rightarrow> Inl err
      | Inr (v, r) \<Rightarrow>
          (case skip_ws r of
             [] \<Rightarrow> Inl SyntaxError
           | c # r' \<Rightarrow>
               if c = CHR '','' then
                 (case parse_elements n r' of
                    Inl err \<Rightarrow> Inl err
                  | Inr (vs, rest) \<Rightarrow> Inr (v # vs, rest))
               else if c = CHR '']'' then Inr ([v], r')
               else Inl SyntaxError))"
| "parse_members 0 s = Inl SyntaxError"
| "parse_members (Suc n) s =
     (case skip_ws s of
        [] \<Rightarrow> Inl SyntaxError
      | q # s1 \<Rightarrow>
          if q \<noteq> CHR 0x22 then Inl SyntaxError
          else
            (case parse_chars s1 of
               Inl err \<Rightarrow> Inl err
             | Inr (k, s2) \<Rightarrow>
                 (case skip_ws s2 of
                    [] \<Rightarrow> Inl SyntaxError
                  | colon # s3 \<Rightarrow>
                      if colon \<noteq> CHR '':'' then Inl SyntaxError
                      else
                        (case parse_value n s3 of
                           Inl err \<Rightarrow> Inl err
                         | Inr (v, r) \<Rightarrow>
                             (case skip_ws r of
                                [] \<Rightarrow> Inl SyntaxError
                              | c # r' \<Rightarrow>
                                  if c = CHR '','' then
                                    (case parse_members n r' of
                                       Inl err \<Rightarrow> Inl err
                                     | Inr (ms, rest) \<Rightarrow> Inr ((k, v) # ms, rest))
                                  else if c = CHR ''}'' then Inr ([(k, v)], r')
                                  else Inl SyntaxError)))))"

definition JSON_parse :: "string \<Rightarrow> error + json" where
  "JSON_parse s =
     (case parse_value (length s) s of
        Inl err \<Rightarrow> Inl err
      | Inr (v, rest) \<Rightarrow> if skip_ws rest = [] then Inr v else Inl SyntaxError)"

section \<open>Loading (services/TaskService.ts, loadTasks and the constructor)\<close>

text \<open>
  \<^verbatim>\<open>new Date(v)\<close> for what the property access gave: \<open>None\<close> is \<^verbatim>\<open>undefined\<close>
  (no such property), which gives an invalid date; \<^verbatim>\<open>null\<close>, a boolean and a number
  are converted to a number; a string is parsed.
\<close>

fun new_Date_of :: "json option \<Rightarrow> error + Date" where
  "new_Date_of None = Inr InvalidDate"
| "new_Date_of (Some JNull) = Inr (Date 0)"
| "new_Date_of (Some (JBool b)) = Inr (Date (if b then 1 else 0))"
| "new_Date_of (Some (JNumber n)) = Inr (TimeClip n)"
| "new_Date_of (Some (JString s)) = Date_of_string s"
| "new_Date_of (Some (JArray xs)) = Inl Unmodelled"
| "new_Date_of (Some (JObject ms)) = Inl Unmodelled"

text \<open>The value of a property of a parsed object: of two members with one key the later wins.\<close>

definition property :: "(string \<times> json) list \<Rightarrow> string \<Rightarrow> json option" where
  "property ms k = map_of (rev ms) k"

text \<open>
  The callback of \<^verbatim>\<open>map\<close> in \<^verbatim>\<open>loadTasks\<close>: the parsed record with createdAt and
  updatedAt replaced by dates. Reading a property of \<^verbatim>\<open>null\<close> raises. A record without
  the five string properties of a task has no value in this model (properties other than
  the seven of a task are not represented either).
\<close>

definition rehydrate :: "json \<Rightarrow> error + Task" where
  "rehydrate j =
     (case j of
        JNull \<Rightarrow> Inl TypeError
      | JObject ms \<Rightarrow>
          (case (property ms ''id'', property ms ''title'', property ms ''description'',
                 property ms ''state'', property ms ''priority'') of
             (Some (JString i), Some (JString t), Some (JString d), Some (JString s),
              Some (JString p)) \<Rightarrow>
               (case new_Date_of (property ms ''createdAt'') of
                  Inl err \<Rightarrow> Inl err
                | Inr c \<Rightarrow>
                    (case new_Date_of (property ms ''updatedAt'') of
                       Inl err \<Rightarrow> Inl err
                     | Inr u \<Rightarrow>
                         Inr \<lparr>task_id = i, title = t, description = d, state = s,
                              priority = p, createdAt = c, updatedAt = u\<rparr>))
           | _ \<Rightarrow> Inl Unmodelled)
      | _ \<Rightarrow> Inl Unmodelled)"

text \<open>\<^verbatim>\<open>map\<close> with a callback that may raise: the first failure ends it.\<close>

fun map_rehydrate :: "json list \<Rightarrow> error + Task list" where
  "map_rehydrate [] = Inr []"
| "map_rehydrate (j # js) =
     (case rehydrate j of
        Inl err \<Rightarrow> Inl err
      | Inr t \<Rightarrow> (case map_rehydrate js of Inl err \<Rightarrow> Inl err | Inr ts \<Rightarrow> Inr (t # ts)))"

text \<open>
  \<^verbatim>\<open>if (storedTasks)\<close> is false for \<^verbatim>\<open>null\<close> (no item) and for the empty string.
  \<^verbatim>\<open>.map\<close> on a parsed value that is not an array raises.
\<close>

definition loadTasks :: "world \<Rightarrow> error + world" where
  "loadTasks w =
     (case getItem STORAGE_KEY w of
        None \<Rightarrow> Inr w
      | Some storedTasks \<Rightarrow>
          if storedTasks = [] then Inr w
          else
            (case JSON_parse storedTasks of
               Inl err \<Rightarrow> Inl err
             | Inr (JArray xs) \<Rightarrow>
                 (case map_rehydrate xs of
                    Inl err \<Rightarrow> Inl err
                  | Inr ts \<Rightarrow> Inr (setTasks ts w))
             | Inr _ \<Rightarrow> Inl TypeError))"

text \<open>
  The constructor: a fresh subject (no observers, no tasks), then \<^verbatim>\<open>loadTasks\<close> from
  the storage the world holds.
\<close>

definition TaskService_new :: "world \<Rightarrow> error + world" where
  "TaskService_new w = loadTasks (w\<lparr>observers := [], tasks := []\<rparr>)"

section \<open>Properties of a run\<close>

text \<open>
  The calls a listener receives between two worlds: the update log only grows at its
  end, so they are the entries added, counted for the listener.
\<close>

definition times_notified :: "TaskObserver \<Rightarrow> world \<Rightarrow> world \<Rightarrow> nat" where
  "times_notified l w w' =
     count_list (map fst (drop (length (updateCalls w)) (updateCalls w'))) l"

text \<open>
  Between \<open>w\<close> and \<open>w'\<close> exactly one round of notifications and one persist happened:
  the update log gained one call per registration, in registration order, each with the
  collection held in \<open>w'\<close>, and the storage port gained one \<^verbatim>\<open>setItem\<close> call, under
  the key \<^verbatim>\<open>tasks\<close>, with the serialization of that collection.
\<close>

definition one_notification_one_persist :: "world \<Rightarrow> world \<Rightarrow> bool" where
  "one_notification_one_persist w w' \<longleftrightarrow>
     updateCalls w' = updateCalls w @ map (\<lambda>observer. (observer, tasks w')) (observers w) \<and>
     setItemCalls w' =
       setItemCalls w @ [(STORAGE_KEY, JSON_stringify (tasks_toJSON (tasks w')))]"

text \<open>The members of the two enumerations.\<close>

definition TaskState_values :: "TaskState set" where
  "TaskState_values = {NEW, IN_PROGRESS, COMPLETED, POSTPONED}"

definition TaskPriority_values :: "TaskPriority set" where
  "TaskPriority_values = {HIGH, MEDIUM, LOW}"

subsection \<open>A concrete world for the examples\<close>

definition example_clock :: "nat \<Rightarrow> int" where
  "example_clock n = 1700000000000 + 1000 * int n"

definition example_uuids :: "nat \<Rightarrow> string" where
  "example_uuids n = ''9b2e7c1a-0000-4000-8000-000000000'' @ digits 3 n"

definition example_task :: Task where
  "example_task =
     \<lparr>task_id = ''a1'', title = ''Buy milk'', description = [], state = COMPLETED,
      priority = LOW, createdAt = Date 1600000000000, updatedAt = Date 1650000000000\<rparr>"

definition other_task :: Task where
  "other_task =
     \<lparr>task_id = ''b2'', title = ''Write report'', description = ''draft'', state = NEW,
      priority = HIGH, createdAt = Date 1610000000000, updatedAt = Date 1610000000000\<rparr>"

definition example_world :: world where
  "example_world =
     \<lparr>observers = [1, 2, 1], tasks = [example_task, other_task], storage = Map.empty,
      clock = example_clock, ticks = 0, uuids = example_uuids, drawn = 0,
      updateCalls = [], setItemCalls = []\<rparr>"

subsection \<open>Timestamps\<close>

text \<open>Every stored task was updated no earlier than it was created.\<close>

definition updated_after_created :: "world \<Rightarrow> bool" where
  "updated_after_created w \<longleftrightarrow> (\<forall>u \<in> set (tasks w). date_ge (updatedAt u) (createdAt u))"

text \<open>The task's createdAt is not later than the clock's next reading.\<close>

definition timely :: "Task \<Rightarrow> world \<Rightarrow> bool" where
  "timely t w \<longleftrightarrow> date_ge (Date (clock w (ticks w))) (createdAt t)"

text \<open>
  The worlds the public operations of the service lead to from \<open>w0\<close>, when updateTask and
  changeTaskState are only given tasks that are timely at the call.
\<close>

inductive reachable :: "world \<Rightarrow> world \<Rightarrow> bool" for w0 :: world where
  start: "reachable w0 w0"
| create: "reachable w0 w \<Longrightarrow> reachable w0 (snd (createTask ttl descr prio w))"
| update: "reachable w0 w \<Longrightarrow> timely t w \<Longrightarrow> reachable w0 (updateTask t w)"
| delete: "reachable w0 w \<Longrightarrow> reachable w0 (deleteTask taskId w)"
| change: "reachable w0 w \<Longrightarrow> timely t w \<Longrightarrow> reachable w0 (snd (changeTaskState t S w))"
| attached: "reachable w0 w \<Longrightarrow> reachable w0 (attachObserver l w)"
| detached: "reachable w0 w \<Longrightarrow> reachable w0 (detachObserver l w)"

subsection \<open>Further example worlds\<close>

text \<open>A world whose clock is behind the stamp of a stored task.\<close>

definition slow_clock :: "nat \<Rightarrow> int" where
  "slow_clock n = 1640000000000 + 1000 * int n"

definition late_stamp_world :: world where
  "late_stamp_world = example_world\<lparr>clock := slow_clock\<rparr>"

text \<open>A service that starts empty, and the world after its first createTask.\<close>

definition empty_world :: world where
  "empty_world =
     \<lparr>observers = [], tasks = [], storage = Map.empty,
      clock = example_clock, ticks = 0, uuids = example_uuids, drawn = 0,
      updateCalls = [], setItemCalls = []\<rparr>"

definition started_world :: world where
  "started_world = snd (createTask ''Buy milk'' [] LOW empty_world)"

definition created_task :: Task where
  "created_task = fst (createTask ''Buy milk'' [] LOW empty_world)"

definition future_task :: Task where
  "future_task = created_task\<lparr>createdAt := Date 1800000000000\<rparr>"

text \<open>A stored task whose createdAt is an invalid date.\<close>

definition undated_task :: Task where
  "undated_task = other_task\<lparr>createdAt := InvalidDate\<rparr>"

definition undated_world :: world where
  "undated_world = example_world\<lparr>tasks := [undated_task]\<rparr>"



section \<open>What each operation does to the world\<close>

lemma fold_update:
  "fold (\<lambda>observer w'. update observer (tasks w') w') obs w =
     w\<lparr>updateCalls := updateCalls w @ map (\<lambda>observer. (observer, tasks w)) obs\<rparr>"
  by (induction obs arbitrary: w) (simp_all add: update_def)

lemma notify_eq:
  "notify w =
     w\<lparr>updateCalls := updateCalls w @ map (\<lambda>observer. (observer, tasks w)) (observers w)\<rparr>"
  by (simp add: notify_def fold_update)

lemma setTasks_eq:
  "setTasks ts w =
     w\<lparr>tasks := ts,
       updateCalls := updateCalls w @ map (\<lambda>observer. (observer, ts)) (observers w)\<rparr>"
  by (simp add: setTasks_def notify_eq)

lemma saveTasks_eq:
  "saveTasks w =
     w\<lparr>storage := (storage w)(STORAGE_KEY \<mapsto> JSON_stringify (tasks_toJSON (tasks w))),
       setItemCalls := setItemCalls w @ [(STORAGE_KEY, JSON_stringify (tasks_toJSON (tasks w)))]\<rparr>"
  by (simp add: saveTasks_def setItem_def getTasks_def)

lemma updateTask_map_world:
  "snd (updateTask_map task ts w) =
     w\<lparr>ticks := ticks w + length (filter (\<lambda>t. task_id t = task_id task) ts)\<rparr>"
  by (induction ts arbitrary: w) (simp_all add: new_Date_def split_beta)

lemma updateTask_eq:
  "updateTask task w =
     (let ts = fst (updateTask_map task (tasks w) w) in
      w\<lparr>tasks := ts,
        ticks := ticks w + length (filter (\<lambda>t. task_id t = task_id task) (tasks w)),
        updateCalls := updateCalls w @ map (\<lambda>observer. (observer, ts)) (observers w),
        storage := (storage w)(STORAGE_KEY \<mapsto> JSON_stringify (tasks_toJSON ts)),
        setItemCalls := setItemCalls w @ [(STORAGE_KEY, JSON_stringify (tasks_toJSON ts))]\<rparr>)"
  using updateTask_map_world[of task "tasks w" w]
  by (cases "updateTask_map task (tasks w) w")
     (simp add: updateTask_def getTasks_def setTasks_eq saveTasks_eq Let_def)

lemma deleteTask_eq:
  "deleteTask taskId w =
     (let ts = filter (\<lambda>t. task_id t \<noteq> taskId) (tasks w) in
      w\<lparr>tasks := ts,
        updateCalls := updateCalls w @ map (\<lambda>observer. (observer, ts)) (observers w),
        storage := (storage w)(STORAGE_KEY \<mapsto> JSON_stringify (tasks_toJSON ts)),
        setItemCalls := setItemCalls w @ [(STORAGE_KEY, JSON_stringify (tasks_toJSON ts))]\<rparr>)"
  by (simp add: deleteTask_def getTasks_def setTasks_eq saveTasks_eq Let_def)

lemma factory_createTask_eq:
  "factory_createTask ttl descr prio w =
     (\<lparr>task_id = uuids w (drawn w), title = ttl, description = descr, state = NEW,
       priority = prio, createdAt = Date (clock w (ticks w)),
       updatedAt = Date (clock w (ticks w))\<rparr>,
      w\<lparr>ticks := Suc (ticks w), drawn := Suc (drawn w)\<rparr>)"
  by (simp add: factory_createTask_def new_Date_def uuidv4_def)

lemma createTask_eq:
  "createTask ttl descr prio w =
     (let task = \<lparr>task_id = uuids w (drawn w), title = ttl, description = descr, state = NEW,
                  priority = prio, createdAt = Date (clock w (ticks w)),
                  updatedAt = Date (clock w (ticks w))\<rparr>;
          ts = tasks w @ [task] in
      (task,
       w\<lparr>tasks := ts, ticks := Suc (ticks w), drawn := Suc (drawn w),
         updateCalls := updateCalls w @ map (\<lambda>observer. (observer, ts)) (observers w),
         storage := (storage w)(STORAGE_KEY \<mapsto> JSON_stringify (tasks_toJSON ts)),
         setItemCalls := setItemCalls w @ [(STORAGE_KEY, JSON_stringify (tasks_toJSON ts))]\<rparr>))"
  by (simp add: createTask_def factory_createTask_eq getTasks_def setTasks_eq saveTasks_eq
        Let_def)

lemma handleState_eq:
  "getHandlerForState s = Some h \<Longrightarrow>
   handleState h task w =
     (task\<lparr>state := s, updatedAt := Date (clock w (ticks w))\<rparr>, w\<lparr>ticks := Suc (ticks w)\<rparr>)"
  by (cases h) (auto simp: getHandlerForState_def new_Date_def split: if_splits)

lemma getHandlerForState_values:
  "s \<in> TaskState_values \<Longrightarrow> \<exists>h. getHandlerForState s = Some h"
  by (auto simp: TaskState_values_def getHandlerForState_def)

lemma changeTaskState_eq:
  "s \<in> TaskState_values \<Longrightarrow>
   changeTaskState task s w =
     (task\<lparr>state := s, updatedAt := Date (clock w (ticks w))\<rparr>,
      updateTask (task\<lparr>state := s, updatedAt := Date (clock w (ticks w))\<rparr>)
        (w\<lparr>ticks := Suc (ticks w)\<rparr>))"
  using getHandlerForState_values[of s]
  by (auto simp: changeTaskState_def handleState_eq)

lemma updateTask_map_length: "length (fst (updateTask_map task ts w)) = length ts"
  by (induction ts arbitrary: w) (simp_all add: split_beta)

lemma updateTask_map_nth:
  "i < length ts \<Longrightarrow>
   fst (updateTask_map task ts w) ! i =
     (if task_id (ts ! i) = task_id task
      then task\<lparr>updatedAt :=
             Date (clock w (ticks w + length (filter (\<lambda>t. task_id t = task_id task) (take i ts))))\<rparr>
      else ts ! i)"
proof (induction ts arbitrary: w i)
  case Nil
  then show ?case by simp
next
  case (Cons t ts)
  show ?case
  proof (cases i)
    case 0
    then show ?thesis by (simp add: split_beta new_Date_def)
  next
    case (Suc j)
    with Cons.prems have j: "j < length ts" by simp
    show ?thesis
      using Cons.IH[OF j] Suc by (simp add: split_beta new_Date_def)
  qed
qed

lemma updateTask_map_ids: "map task_id (fst (updateTask_map task ts w)) = map task_id ts"
  by (induction ts arbitrary: w) (simp_all add: split_beta)

lemma updateTask_map_others:
  "filter (\<lambda>u. task_id u \<noteq> task_id task) (fst (updateTask_map task ts w)) =
   filter (\<lambda>u. task_id u \<noteq> task_id task) ts"
  by (induction ts arbitrary: w) (simp_all add: split_beta)

lemma updateTask_map_absent:
  "task_id task \<notin> task_id ` set ts \<Longrightarrow> fst (updateTask_map task ts w) = ts"
  by (induction ts arbitrary: w) (auto simp: split_beta)

lemma updateTask_map_supplied:
  "fst (updateTask_map (task\<lparr>updatedAt := x\<rparr>) ts w) = fst (updateTask_map task ts w)"
  by (induction ts arbitrary: w) (simp_all add: split_beta)

lemma updateTask_map_state:
  "u \<in> set (fst (updateTask_map task ts w)) \<Longrightarrow> task_id u = task_id task \<Longrightarrow>
   state u = state task"
  by (induction ts arbitrary: w) (auto simp: split_beta split: if_splits)

lemma tasks_updateTask: "tasks (updateTask task w) = fst (updateTask_map task (tasks w) w)"
  by (simp add: updateTask_eq Let_def)

lemma tasks_deleteTask:
  "tasks (deleteTask taskId w) = filter (\<lambda>t. task_id t \<noteq> taskId) (tasks w)"
  by (simp add: deleteTask_eq Let_def)

subsection \<open>Notifications and persists\<close>

lemma times_notified_append:
  "updateCalls w' = updateCalls w @ map (\<lambda>observer. (observer, ts)) obs \<Longrightarrow>
   times_notified l w w' = count_list obs l"
  by (simp add: times_notified_def comp_def)

lemma once_times_notified:
  "one_notification_one_persist w w' \<Longrightarrow> times_notified l w w' = count_list (observers w) l"
  unfolding one_notification_one_persist_def by (metis times_notified_append)

lemma once_updateTask: "one_notification_one_persist w (updateTask task w)"
  by (simp add: one_notification_one_persist_def updateTask_eq Let_def)

lemma once_deleteTask: "one_notification_one_persist w (deleteTask taskId w)"
  by (simp add: one_notification_one_persist_def deleteTask_eq Let_def)

lemma once_createTask: "one_notification_one_persist w (snd (createTask ttl descr prio w))"
  by (simp add: one_notification_one_persist_def createTask_eq Let_def)

lemma once_changeTaskState:
  "s \<in> TaskState_values \<Longrightarrow>
   one_notification_one_persist w (snd (changeTaskState task s w))"
  by (simp add: one_notification_one_persist_def changeTaskState_eq updateTask_eq Let_def)

subsection \<open>Registering listeners\<close>

lemma indexOf_notin: "x \<notin> set xs \<Longrightarrow> indexOf xs x = -1"
  by (induction xs) auto

lemma indexOf_in:
  "x \<in> set xs \<Longrightarrow> 0 \<le> indexOf xs x \<and> splice1 (indexOf xs x) xs = remove1 x xs"
proof (induction xs)
  case Nil
  then show ?case by simp
next
  case (Cons y ys)
  show ?case
  proof (cases "y = x")
    case True
    then show ?thesis by (simp add: splice1_def)
  next
    case False
    with Cons have IH: "0 \<le> indexOf ys x" "splice1 (indexOf ys x) ys = remove1 x ys"
      by auto
    then have "indexOf (y # ys) x = indexOf ys x + 1"
      using False by (auto simp: Let_def)
    moreover have "nat (indexOf ys x + 1) = Suc (nat (indexOf ys x))"
      using IH(1) by simp
    ultimately show ?thesis
      using False IH by (simp add: splice1_def)
  qed
qed

lemma detach_remove1: "observers (detach l w) = remove1 l (observers w)"
proof (cases "l \<in> set (observers w)")
  case True
  then show ?thesis
    using indexOf_in[of l "observers w"] by (auto simp: detach_def Let_def)
next
  case False
  then show ?thesis by (simp add: detach_def indexOf_notin remove1_idem)
qed

lemma detach_unregistered: "l \<notin> set (observers w) \<Longrightarrow> detach l w = w"
  by (simp add: detach_def indexOf_notin)

lemma count_list_remove1:
  "count_list (remove1 x xs) y =
     (if x = y \<and> x \<in> set xs then count_list xs y - 1 else count_list xs y)"
  by (induction xs) auto

lemma times_notified_setTasks:
  "times_notified l w (setTasks ts w) = count_list (observers w) l"
  by (rule times_notified_append[of _ _ ts]) (simp add: setTasks_eq)

subsection \<open>Timestamps\<close>

lemma filter_take_less:
  "i < length xs \<Longrightarrow> P (xs ! i) \<Longrightarrow> length (filter P (take i xs)) < length (filter P xs)"
proof -
  assume i: "i < length xs" and P: "P (xs ! i)"
  have "xs = take i xs @ xs ! i # drop (Suc i) xs"
    using i by (simp add: id_take_nth_drop)
  then have "filter P xs = filter P (take i xs) @ xs ! i # filter P (drop (Suc i) xs)"
    using P by (metis filter.simps(2) filter_append)
  then show ?thesis by simp
qed

lemma ticks_updateTask:
  "ticks (updateTask t w) = ticks w + length (filter (\<lambda>u. task_id u = task_id t) (tasks w))"
  by (simp add: updateTask_eq Let_def)

lemma clock_updateTask: "clock (updateTask t w) = clock w"
  by (simp add: updateTask_eq Let_def)

lemma updateTask_stamp:
  assumes i: "i < length (tasks w)" and m: "task_id (tasks w ! i) = task_id t"
  shows "\<exists>k. ticks w \<le> k \<and> k < ticks (updateTask t w) \<and>
             tasks (updateTask t w) ! i = t\<lparr>updatedAt := Date (clock w k)\<rparr>"
proof -
  let ?k = "ticks w + length (filter (\<lambda>u. task_id u = task_id t) (take i (tasks w)))"
  have "?k < ticks (updateTask t w)"
    using filter_take_less[of i "tasks w" "\<lambda>u. task_id u = task_id t"] i m
    by (simp add: ticks_updateTask)
  moreover have "tasks (updateTask t w) ! i = t\<lparr>updatedAt := Date (clock w ?k)\<rparr>"
    using i m by (simp add: tasks_updateTask updateTask_map_nth)
  ultimately show ?thesis by (intro exI[of _ ?k]) simp
qed

lemma date_ge_trans: "a \<le> b \<Longrightarrow> date_ge (Date a) d \<Longrightarrow> date_ge (Date b) d"
  by (cases d) auto

lemma updateTask_member:
  assumes "u \<in> set (tasks (updateTask t w))"
  shows "u \<in> set (tasks w) \<or> (\<exists>k \<ge> ticks w. u = t\<lparr>updatedAt := Date (clock w k)\<rparr>)"
proof -
  from assms obtain i where i: "i < length (tasks w)" and u: "u = tasks (updateTask t w) ! i"
    by (metis in_set_conv_nth tasks_updateTask updateTask_map_length)
  show ?thesis
  proof (cases "task_id (tasks w ! i) = task_id t")
    case True
    from updateTask_stamp[OF i True] u show ?thesis by auto
  next
    case False
    then have "u = tasks w ! i"
      using i u by (simp add: tasks_updateTask updateTask_map_nth)
    then show ?thesis using i by simp
  qed
qed

lemma updateTask_keeps_order:
  assumes mono: "mono (clock w)" and inv: "updated_after_created w" and t: "timely t w"
  shows "updated_after_created (updateTask t w)"
  unfolding updated_after_created_def
proof
  fix u
  assume "u \<in> set (tasks (updateTask t w))"
  then consider "u \<in> set (tasks w)"
    | k where "ticks w \<le> k" "u = t\<lparr>updatedAt := Date (clock w k)\<rparr>"
    using updateTask_member by blast
  then show "date_ge (updatedAt u) (createdAt u)"
  proof cases
    case 1
    then show ?thesis using inv by (simp add: updated_after_created_def)
  next
    case 2
    have "clock w (ticks w) \<le> clock w k"
      using mono 2(1) by (simp add: monoD)
    then show ?thesis
      using t 2(2) date_ge_trans by (simp add: timely_def)
  qed
qed

lemma createTask_keeps_order:
  "updated_after_created w \<Longrightarrow> updated_after_created (snd (createTask ttl descr prio w))"
  by (auto simp: updated_after_created_def createTask_eq Let_def)

lemma deleteTask_keeps_order:
  "updated_after_created w \<Longrightarrow> updated_after_created (deleteTask taskId w)"
  by (auto simp: updated_after_created_def tasks_deleteTask)

lemma changeTaskState_keeps_order:
  assumes mono: "mono (clock w)" and inv: "updated_after_created w" and t: "timely t w"
  shows "updated_after_created (snd (changeTaskState t S w))"
proof (cases "getHandlerForState S")
  case None
  then show ?thesis using inv by (simp add: changeTaskState_def)
next
  case (Some h)
  let ?w1 = "w\<lparr>ticks := Suc (ticks w)\<rparr>"
  let ?t1 = "t\<lparr>state := S, updatedAt := Date (clock w (ticks w))\<rparr>"
  have run: "snd (changeTaskState t S w) = updateTask ?t1 ?w1"
    using Some by (simp add: changeTaskState_def handleState_eq)
  have "clock w (ticks w) \<le> clock w (Suc (ticks w))"
    using mono by (simp add: monoD)
  then have "timely ?t1 ?w1"
    using t date_ge_trans by (simp add: timely_def)
  moreover have "mono (clock ?w1)" "updated_after_created ?w1"
    using mono inv by (simp_all add: updated_after_created_def)
  ultimately show ?thesis
    using updateTask_keeps_order run by simp
qed

lemma clock_createTask: "clock (snd (createTask ttl descr prio w)) = clock w"
  by (simp add: createTask_eq Let_def)

lemma clock_deleteTask: "clock (deleteTask taskId w) = clock w"
  by (simp add: deleteTask_eq Let_def)

lemma clock_changeTaskState: "clock (snd (changeTaskState t S w)) = clock w"
  by (cases "getHandlerForState S")
     (simp_all add: changeTaskState_def handleState_eq clock_updateTask)

lemma tasks_attachObserver: "tasks (attachObserver l w) = tasks w"
  by (simp add: attachObserver_def attach_def)

lemma clock_attachObserver: "clock (attachObserver l w) = clock w"
  by (simp add: attachObserver_def attach_def)

lemma tasks_detachObserver: "tasks (detachObserver l w) = tasks w"
  by (simp add: detachObserver_def detach_def Let_def)

lemma clock_detachObserver: "clock (detachObserver l w) = clock w"
  by (simp add: detachObserver_def detach_def Let_def)

lemma reachable_clock: "reachable w0 w \<Longrightarrow> clock w = clock w0"
  by (induction rule: reachable.induct)
     (simp_all add: clock_createTask clock_updateTask clock_deleteTask clock_changeTaskState
        clock_attachObserver clock_detachObserver)

lemma reachable_keeps_order:
  assumes mono: "mono (clock w0)" and inv: "updated_after_created w0"
  shows "reachable w0 w \<Longrightarrow> updated_after_created w"
proof (induction rule: reachable.induct)
  case start
  show ?case by (rule inv)
next
  case (create w ttl descr prio)
  then show ?case by (simp add: createTask_keeps_order)
next
  case (update w t)
  then show ?case using mono by (simp add: updateTask_keeps_order reachable_clock)
next
  case (delete w taskId)
  then show ?case by (simp add: deleteTask_keeps_order)
next
  case (change w t S)
  then show ?case using mono by (simp add: changeTaskState_keeps_order reachable_clock)
next
  case (attached w l)
  then show ?case by (simp add: updated_after_created_def tasks_attachObserver)
next
  case (detached w l)
  then show ?case by (simp add: updated_after_created_def tasks_detachObserver)
qed

subsection \<open>The calendar\<close>

lemma century_bounds:
  fixes doe :: int
  assumes "0 \<le> doe" "doe < 146097"
  shows "0 \<le> doe - 36524 * min 3 (doe div 36524) \<and>
         doe - 36524 * min 3 (doe div 36524) \<le> 36524"
proof -
  define k where "k = doe div 36524"
  define r where "r = doe mod 36524"
  have "doe = 36524 * k + r" "0 \<le> r" "r < 36524"
    by (simp_all add: k_def r_def)
  then show ?thesis
    using assms unfolding k_def[symmetric] by (cases "k \<le> 3") auto
qed

lemma year_of_quad_bounds:
  fixes doq :: int
  assumes "0 \<le> doq" "doq \<le> 1460"
  shows "0 \<le> doq - 365 * min 3 (doq div 365) \<and> doq - 365 * min 3 (doq div 365) \<le> 365"
proof -
  define k where "k = doq div 365"
  define r where "r = doq mod 365"
  have "doq = 365 * k + r" "0 \<le> r" "r < 365"
    by (simp_all add: k_def r_def)
  then show ?thesis
    using assms unfolding k_def[symmetric] by (cases "k \<le> 3") auto
qed

lemma year_div_4:
  fixes c q yq :: int
  assumes "0 \<le> yq" "yq \<le> 3"
  shows "(100 * c + 4 * q + yq) div 4 = 25 * c + q"
proof -
  define k where "k = (100 * c + 4 * q + yq) div 4"
  define r where "r = (100 * c + 4 * q + yq) mod 4"
  have "100 * c + 4 * q + yq = 4 * k + r" "0 \<le> r" "r < 4"
    by (simp_all add: k_def r_def)
  then have "k = 25 * c + q" using assms by linarith
  then show ?thesis by (simp add: k_def)
qed

lemma year_div_100:
  fixes c q yq :: int
  assumes "0 \<le> yq" "yq \<le> 3" "0 \<le> q" "q \<le> 24"
  shows "(100 * c + 4 * q + yq) div 100 = c"
proof -
  define k where "k = (100 * c + 4 * q + yq) div 100"
  define r where "r = (100 * c + 4 * q + yq) mod 100"
  have "100 * c + 4 * q + yq = 100 * k + r" "0 \<le> r" "r < 100"
    by (simp_all add: k_def r_def)
  then have "k = c" using assms by linarith
  then show ?thesis by (simp add: k_def)
qed

lemma year_of_era_bounds:
  assumes "0 \<le> doe" "doe < 146097" "year_of_era doe = (yoe, doy)"
  shows "0 \<le> yoe \<and> yoe \<le> 399 \<and> 0 \<le> doy \<and> doy \<le> 365 \<and>
         yoe * 365 + yoe div 4 - yoe div 100 + doy = doe"
proof -
  define c where "c = min 3 (doe div 36524)"
  define doc where "doc = doe - 36524 * c"
  define q where "q = doc div 1461"
  define doq where "doq = doc mod 1461"
  define yq where "yq = min 3 (doq div 365)"
  have yoe: "yoe = 100 * c + 4 * q + yq" and doy: "doy = doq - 365 * yq"
    using assms(3) by (simp_all add: year_of_era_def Let_def c_def doc_def q_def doq_def yq_def)
  have c: "0 \<le> c" "c \<le> 3"
    using assms(1) by (simp_all add: c_def)
  have doc: "0 \<le> doc" "doc \<le> 36524"
    using century_bounds[OF assms(1,2)] by (simp_all add: doc_def c_def)
  have doq: "0 \<le> doq" "doq \<le> 1460" "doc = 1461 * q + doq"
    by (simp_all add: doq_def q_def)
  have q: "0 \<le> q" "q \<le> 24"
    using doc doq by linarith+
  have yq: "0 \<le> yq" "yq \<le> 3"
    using doq(1) by (simp_all add: yq_def)
  have doy_b: "0 \<le> doy" "doy \<le> 365"
    using year_of_quad_bounds[OF doq(1,2)] by (simp_all add: doy yq_def)
  have d4: "yoe div 4 = 25 * c + q"
    unfolding yoe by (rule year_div_4[OF yq])
  have d100: "yoe div 100 = c"
    unfolding yoe by (rule year_div_100[OF yq q])
  have "doe = 36524 * c + doc"
    by (simp add: doc_def)
  then have sum: "yoe * 365 + yoe div 4 - yoe div 100 + doy = doe"
    unfolding d4 d100 using doq(3) by (simp add: yoe doy)
  have "0 \<le> yoe" "yoe \<le> 399"
    using c q yq unfolding yoe by linarith+
  then show ?thesis
    using doy_b sum by simp
qed

lemma month_day_bounds:
  fixes doy :: int
  assumes "0 \<le> doy" "doy \<le> 365"
  shows "0 \<le> (5 * doy + 2) div 153 \<and> (5 * doy + 2) div 153 \<le> 11 \<and>
         1 \<le> doy - (153 * ((5 * doy + 2) div 153) + 2) div 5 + 1 \<and>
         doy - (153 * ((5 * doy + 2) div 153) + 2) div 5 + 1 \<le> 31"
proof -
  define mp where "mp = (5 * doy + 2) div 153"
  define r where "r = (5 * doy + 2) mod 153"
  have e: "5 * doy + 2 = 153 * mp + r" "0 \<le> r" "r < 153"
    by (simp_all add: mp_def r_def)
  have mp: "0 \<le> mp" "mp \<le> 11"
    using e assms by linarith+
  define f where "f = (153 * mp + 2) div 5"
  define g where "g = (153 * mp + 2) mod 5"
  have h: "153 * mp + 2 = 5 * f + g" "0 \<le> g" "g < 5"
    by (simp_all add: f_def g_def)
  have "1 \<le> doy - f + 1 \<and> doy - f + 1 \<le> 31"
    using e h by linarith
  then show ?thesis
    using mp unfolding f_def mp_def by simp
qed

lemma era_year:
  fixes yoe era :: int
  assumes "0 \<le> yoe" "yoe \<le> 399"
  shows "(yoe + era * 400) div 400 = era \<and> (yoe + era * 400) mod 400 = yoe"
proof -
  have "(yoe + era * 400) div 400 = era + yoe div 400"
    by (rule div_mult_self1) simp
  moreover have "(yoe + era * 400) mod 400 = yoe mod 400"
    by (rule mod_mult_self1)
  ultimately show ?thesis
    using assms by simp
qed

lemma civil_round_trip:
  assumes "civil_from_days z = (y, m, d)"
  shows "days_from_civil y m d = z \<and> 1 \<le> m \<and> m \<le> 12 \<and> 1 \<le> d \<and> d \<le> 31 \<and>
         400 * ((z + 719468) div 146097) \<le> y \<and> y \<le> 400 * ((z + 719468) div 146097) + 400"
proof -
  define z' where "z' = z + 719468"
  define era where "era = z' div 146097"
  define doe where "doe = z' mod 146097"
  obtain yoe doy where yd: "year_of_era doe = (yoe, doy)"
    by (cases "year_of_era doe")
  have doe: "0 \<le> doe" "doe < 146097" "z' = 146097 * era + doe"
    by (simp_all add: doe_def era_def)
  note B = year_of_era_bounds[OF doe(1,2) yd]
  define mp where "mp = (5 * doy + 2) div 153"
  have M: "0 \<le> mp" "mp \<le> 11" "1 \<le> doy - (153 * mp + 2) div 5 + 1"
    "doy - (153 * mp + 2) div 5 + 1 \<le> 31"
    using month_day_bounds[of doy] B by (simp_all add: mp_def)
  have d: "d = doy - (153 * mp + 2) div 5 + 1"
    and m: "m = (if mp < 10 then mp + 3 else mp - 9)"
    and y: "y = yoe + era * 400 + (if m \<le> 2 then 1 else 0)"
    using assms yd
    by (auto simp: civil_from_days_def Let_def z'_def era_def doe_def mp_def)
  have mb: "1 \<le> m" "m \<le> 12" and mp': "(if m > 2 then m - 3 else m + 9) = mp"
    using M(1,2) by (auto simp: m)
  have y': "y - (if m \<le> 2 then 1 else 0) = yoe + era * 400"
    by (simp add: y)
  have E: "(yoe + era * 400) div 400 = era" "(yoe + era * 400) mod 400 = yoe"
    using era_year[of yoe era] B by simp_all
  have "days_from_civil y m d = era * 146097 + (yoe * 365 + yoe div 4 - yoe div 100 + doy) - 719468"
    unfolding days_from_civil_def Let_def y' mp' E by (simp add: d)
  also have "\<dots> = z"
    using B doe(3) by (simp add: z'_def)
  finally have rt: "days_from_civil y m d = z" .
  have "400 * era \<le> y" "y \<le> 400 * era + 400"
    using B by (auto simp: y)
  then show ?thesis
    using rt mb M(3,4) by (simp add: d era_def z'_def)
qed
subsection \<open>Decimal digits\<close>

lemma digit_val_digit_char: "d < 10 \<Longrightarrow> digit_val (digit_char d) = Some d"
  by (simp add: digit_val_def digit_char_def Let_def)

lemma digits_acc_snoc:
  "digits_acc a (xs @ [c]) =
     (case digits_acc a xs of
        None \<Rightarrow> None
      | Some v \<Rightarrow> (case digit_val c of None \<Rightarrow> None | Some d \<Rightarrow> Some (10 * v + d)))"
  by (induction xs arbitrary: a) (simp_all split: option.splits)

lemma digits_value_digits: "n < 10 ^ k \<Longrightarrow> digits_value (digits k n) = Some n"
proof (induction k arbitrary: n)
  case 0
  then show ?case by (simp add: digits_value_def)
next
  case (Suc k)
  then have "n div 10 < 10 ^ k" by (simp add: less_mult_imp_div_less mult.commute)
  then have "digits_value (digits k (n div 10)) = Some (n div 10)"
    by (rule Suc.IH)
  then show ?case
    by (simp add: digits_value_def digits_acc_snoc digit_val_digit_char)
qed

lemma length_digits: "length (digits k n) = k"
  by (induction k arbitrary: n) simp_all

lemma digit_char_not_sign:
  "d < 10 \<Longrightarrow> digit_char d \<noteq> CHR ''+'' \<and> digit_char d \<noteq> CHR ''-''"
proof -
  assume "d < 10"
  then have "(of_char (digit_char d) :: nat) = 48 + d"
    by (simp add: digit_char_def)
  then show ?thesis by auto
qed

lemma digits_chars: "c \<in> set (digits k n) \<Longrightarrow> \<exists>d < 10. c = digit_char d"
proof (induction k arbitrary: n)
  case 0
  then show ?case by simp
next
  case (Suc k)
  show ?case
  proof (cases "c \<in> set (digits k (n div 10))")
    case True
    then show ?thesis by (rule Suc.IH)
  next
    case False
    then have "c = digit_char (n mod 10)" using Suc.prems by simp
    then show ?thesis by (intro exI[of _ "n mod 10"]) simp
  qed
qed

lemma digits_not_sign:
  assumes "0 < k"
  shows "digits k n \<noteq> [] \<and> hd (digits k n) \<noteq> CHR ''+'' \<and> hd (digits k n) \<noteq> CHR ''-''"
proof -
  have ne: "digits k n \<noteq> []"
    using assms length_digits[of k n] by auto
  then have "hd (digits k n) \<in> set (digits k n)" by simp
  then obtain d where "d < 10" "hd (digits k n) = digit_char d"
    using digits_chars by blast
  then show ?thesis
    using ne digit_char_not_sign by simp
qed

lemma digits_2_value:
  assumes "n < 100"
  obtains a b where "digits 2 n = [a, b]" "digits_value [a, b] = Some n"
proof -
  have "digits 2 n = [digit_char (n div 10 mod 10), digit_char (n mod 10)]"
    by (simp add: numeral_2_eq_2)
  moreover have "digits_value (digits 2 n) = Some n"
    using assms by (simp add: digits_value_digits)
  ultimately show ?thesis using that by metis
qed

lemma digits_3_value:
  assumes "n < 1000"
  obtains a b c where "digits 3 n = [a, b, c]" "digits_value [a, b, c] = Some n"
proof -
  have "digits 3 n = [digit_char (n div 10 div 10 mod 10), digit_char (n div 10 mod 10),
                      digit_char (n mod 10)]"
    by (simp add: numeral_3_eq_3)
  moreover have "digits_value (digits 3 n) = Some n"
    using assms by (simp add: digits_value_digits)
  ultimately show ?thesis using that by metis
qed

subsection \<open>A date written by toISOString is read back\<close>

lemma iso_fields_chars:
  "iso_fields y [CHR ''-'', m1, m2, CHR ''-'', d1, d2, CHR ''T'', h1, h2, CHR '':'', i1, i2,
                 CHR '':'', s1, s2, CHR ''.'', f1, f2, f3, CHR ''Z''] =
     (case (digits_value [m1, m2], digits_value [d1, d2], digits_value [h1, h2],
            digits_value [i1, i2], digits_value [s1, s2], digits_value [f1, f2, f3]) of
        (Some mo, Some d, Some h, Some mi, Some sec, Some ms) \<Rightarrow>
          (if 1 \<le> mo \<and> mo \<le> 12 \<and> 1 \<le> d \<and> d \<le> 31 \<and> mi \<le> 59 \<and> sec \<le> 59 \<and>
              (h \<le> 23 \<or> (h = 24 \<and> mi = 0 \<and> sec = 0 \<and> ms = 0))
           then Some (days_from_civil y (int mo) (int d) * msPerDay
                      + int h * 3600000 + int mi * 60000 + int sec * 1000 + int ms)
           else None)
      | _ \<Rightarrow> None)"
  by (simp add: iso_fields_def)

lemma iso_fields_written:
  assumes "1 \<le> mo" "mo \<le> 12" "1 \<le> d" "d \<le> 31" "h \<le> 23" "mi \<le> 59" "sec \<le> 59" "ms < 1000"
  shows "iso_fields y (''-'' @ digits 2 mo @ ''-'' @ digits 2 d @ ''T'' @ digits 2 h @ '':''
            @ digits 2 mi @ '':'' @ digits 2 sec @ ''.'' @ digits 3 ms @ ''Z'') =
         Some (days_from_civil y (int mo) (int d) * msPerDay
               + int h * 3600000 + int mi * 60000 + int sec * 1000 + int ms)"
proof -
  obtain m1 m2 where mo: "digits 2 mo = [m1, m2]" "digits_value [m1, m2] = Some mo"
    using assms by (auto intro: digits_2_value[of mo])
  obtain d1 d2 where d: "digits 2 d = [d1, d2]" "digits_value [d1, d2] = Some d"
    using assms by (auto intro: digits_2_value[of d])
  obtain h1 h2 where h: "digits 2 h = [h1, h2]" "digits_value [h1, h2] = Some h"
    using assms by (auto intro: digits_2_value[of h])
  obtain i1 i2 where mi: "digits 2 mi = [i1, i2]" "digits_value [i1, i2] = Some mi"
    using assms by (auto intro: digits_2_value[of mi])
  obtain s1 s2 where sec: "digits 2 sec = [s1, s2]" "digits_value [s1, s2] = Some sec"
    using assms by (auto intro: digits_2_value[of sec])
  obtain f1 f2 f3 where ms: "digits 3 ms = [f1, f2, f3]" "digits_value [f1, f2, f3] = Some ms"
    using assms by (auto intro: digits_3_value[of ms])
  show ?thesis
    unfolding mo(1) d(1) h(1) mi(1) sec(1) ms(1)
    using assms by (simp add: iso_fields_chars mo(2) d(2) h(2) mi(2) sec(2) ms(2))
qed

lemma time_of_day:
  fixes ms :: int
  assumes "0 \<le> ms" "ms < 86400000"
  shows "nat (ms div 3600000) \<le> 23 \<and> nat (ms div 60000 mod 60) \<le> 59 \<and>
         nat (ms div 1000 mod 60) \<le> 59 \<and> nat (ms mod 1000) < 1000 \<and>
         (ms div 3600000) * 3600000 + (ms div 60000 mod 60) * 60000
           + (ms div 1000 mod 60) * 1000 + ms mod 1000 = ms \<and>
         0 \<le> ms div 3600000 \<and> 0 \<le> ms div 60000 mod 60 \<and> 0 \<le> ms div 1000 mod 60 \<and>
         0 \<le> ms mod 1000"
proof -
  define s where "s = ms div 1000"
  define mn where "mn = s div 60"
  define hr where "hr = mn div 60"
  have a: "ms = 1000 * s + ms mod 1000" "0 \<le> ms mod 1000" "ms mod 1000 < 1000"
    by (simp_all add: s_def)
  have b: "s = 60 * mn + s mod 60" "0 \<le> s mod 60" "s mod 60 < 60"
    by (simp_all add: mn_def)
  have c: "mn = 60 * hr + mn mod 60" "0 \<le> mn mod 60" "mn mod 60 < 60"
    by (simp_all add: hr_def)
  have e1: "ms div 60000 = mn"
    unfolding mn_def s_def by (simp add: zdiv_zmult2_eq)
  have e2: "ms div 3600000 = hr"
    unfolding hr_def mn_def s_def by (simp add: zdiv_zmult2_eq)
  have hr: "0 \<le> hr" "hr \<le> 23"
    using a b c assms by linarith+
  have sum: "hr * 3600000 + (mn mod 60) * 60000 + (s mod 60) * 1000 + ms mod 1000 = ms"
    using a(1) b(1) c(1) by linarith
  have le: "mn mod 60 \<le> 59" "s mod 60 \<le> 59" "ms mod 1000 \<le> 999"
    using a b c by linarith+
  show ?thesis
    unfolding e1 e2 s_def[symmetric]
    using hr le sum by (simp add: nat_le_iff nat_less_iff)
qed
lemma length_4: "length xs = 4 \<Longrightarrow> \<exists>a b c d. xs = [a, b, c, d]"
  by (auto simp: eval_nat_numeral length_Suc_conv)

lemma length_6: "length xs = 6 \<Longrightarrow> \<exists>a b c d e f. xs = [a, b, c, d, e, f]"
  by (auto simp: eval_nat_numeral length_Suc_conv)

lemma digits_4_value:
  assumes "n < 10000"
  obtains a b c d where "digits 4 n = [a, b, c, d]" "digits_value [a, b, c, d] = Some n"
    "a \<noteq> CHR ''+''" "a \<noteq> CHR ''-''"
proof -
  obtain a b c d where e: "digits 4 n = [a, b, c, d]"
    using length_4[OF length_digits[of 4 n]] by blast
  have "digits_value (digits 4 n) = Some n"
    using assms by (intro digits_value_digits) simp
  moreover have "hd (digits 4 n) \<noteq> CHR ''+''" "hd (digits 4 n) \<noteq> CHR ''-''"
    using digits_not_sign[of 4 n] by simp_all
  ultimately show ?thesis
    using that[OF e] unfolding e by simp
qed

lemma digits_6_value:
  assumes "n < 1000000"
  obtains a b c d e f where "digits 6 n = [a, b, c, d, e, f]"
    "digits_value [a, b, c, d, e, f] = Some n"
proof -
  obtain a b c d e f where e: "digits 6 n = [a, b, c, d, e, f]"
    using length_6[OF length_digits[of 6 n]] by blast
  have "digits_value (digits 6 n) = Some n"
    using assms by (intro digits_value_digits) simp
  then show ?thesis
    using that[OF e] unfolding e by simp
qed

lemma iso_time_year:
  assumes "\<bar>y\<bar> \<le> 999999"
  shows "iso_time (year_string y @ tail) = iso_fields y tail"
proof (cases "0 \<le> y \<and> y \<le> 9999")
  case True
  then have "nat y < 10000" by auto
  then obtain a b c d where ds: "digits 4 (nat y) = [a, b, c, d]"
    "digits_value [a, b, c, d] = Some (nat y)" "a \<noteq> CHR ''+''" "a \<noteq> CHR ''-''"
    by (rule digits_4_value)
  have ys: "year_string y = [a, b, c, d]"
    using True ds(1) by (simp add: year_string_def)
  show ?thesis
    unfolding ys using ds(2,3,4) True by (simp add: iso_time_def)
next
  case False
  have "nat \<bar>y\<bar> < 1000000" using assms by auto
  then obtain a b c d e f where ds: "digits 6 (nat \<bar>y\<bar>) = [a, b, c, d, e, f]"
    "digits_value [a, b, c, d, e, f] = Some (nat \<bar>y\<bar>)"
    by (rule digits_6_value)
  show ?thesis
  proof (cases "y < 0")
    case True
    then have ys: "year_string y = [CHR ''-'', a, b, c, d, e, f]"
      using ds(1) by (simp add: year_string_def)
    show ?thesis
      unfolding ys using ds(2) True by (simp add: iso_time_def)
  next
    case nonneg: False
    then have ys: "year_string y = [CHR ''+'', a, b, c, d, e, f]"
      using False ds(1) by (simp add: year_string_def)
    show ?thesis
      unfolding ys using ds(2) nonneg by (simp add: iso_time_def)
  qed
qed

lemma day_number_bounds:
  fixes t :: int
  assumes "\<bar>t\<bar> \<le> maxTime"
  shows "- 680 \<le> (t div msPerDay + 719468) div 146097 \<and>
         (t div msPerDay + 719468) div 146097 \<le> 689"
proof -
  define day where "day = t div msPerDay"
  define ms where "ms = t mod msPerDay"
  have t: "t = 86400000 * day + ms" "0 \<le> ms" "ms < 86400000"
    by (simp_all add: day_def ms_def msPerDay_def)
  have "\<bar>t\<bar> \<le> 8640000000000000"
    using assms by (simp add: maxTime_def)
  then have day: "- 100000000 \<le> day" "day \<le> 100000000"
    using t by linarith+
  define era where "era = (day + 719468) div 146097"
  define doe where "doe = (day + 719468) mod 146097"
  have e: "day + 719468 = 146097 * era + doe" "0 \<le> doe" "doe < 146097"
    by (simp_all add: era_def doe_def)
  have "- 680 \<le> era \<and> era \<le> 689"
    using e day by linarith
  then show ?thesis
    by (simp add: era_def day_def)
qed

lemma iso_time_toISOString:
  assumes "\<bar>t\<bar> \<le> maxTime"
  shows "iso_time (toISOString t) = Some t"
proof -
  define day where "day = t div msPerDay"
  define ms where "ms = t mod msPerDay"
  have t: "t = day * msPerDay + ms" and ms: "0 \<le> ms" "ms < 86400000"
    by (simp_all add: day_def ms_def msPerDay_def)
  obtain y m d where civ: "civil_from_days day = (y, m, d)"
    by (cases "civil_from_days day") auto
  note C = civil_round_trip[OF civ]
  have y: "\<bar>y\<bar> \<le> 999999"
    using C day_number_bounds[OF assms] unfolding day_def[symmetric] by linarith
  note T = time_of_day[OF ms]
  let ?tail = "''-'' @ digits 2 (nat m) @ ''-'' @ digits 2 (nat d) @ ''T''
         @ digits 2 (nat (ms div 3600000)) @ '':''
         @ digits 2 (nat (ms div 60000 mod 60)) @ '':''
         @ digits 2 (nat (ms div 1000 mod 60)) @ ''.''
         @ digits 3 (nat (ms mod 1000)) @ ''Z''"
  have "toISOString t = year_string y @ ?tail"
    using civ by (simp add: toISOString_def Let_def day_def ms_def)
  then have "iso_time (toISOString t) = iso_fields y ?tail"
    using iso_time_year[OF y] by simp
  also have "\<dots> = Some (days_from_civil y (int (nat m)) (int (nat d)) * msPerDay
               + int (nat (ms div 3600000)) * 3600000
               + int (nat (ms div 60000 mod 60)) * 60000
               + int (nat (ms div 1000 mod 60)) * 1000 + int (nat (ms mod 1000)))"
  proof (rule iso_fields_written)
    show "1 \<le> nat m" "nat m \<le> 12" "1 \<le> nat d" "nat d \<le> 31"
      using C by auto
    show "nat (ms div 3600000) \<le> 23" "nat (ms div 60000 mod 60) \<le> 59"
      "nat (ms div 1000 mod 60) \<le> 59" "nat (ms mod 1000) < 1000"
      using T by auto
  qed
  also have "\<dots> = Some (day * msPerDay + ms)"
  proof -
    have "int (nat m) = m" "int (nat d) = d"
      using C by auto
    moreover have "int (nat (ms div 3600000)) = ms div 3600000"
      "int (nat (ms div 60000 mod 60)) = ms div 60000 mod 60"
      "int (nat (ms div 1000 mod 60)) = ms div 1000 mod 60"
      "int (nat (ms mod 1000)) = ms mod 1000"
      using T by auto
    moreover have "days_from_civil y m d = day"
      using C by simp
    moreover have "(ms div 3600000) * 3600000 + (ms div 60000 mod 60) * 60000
           + (ms div 1000 mod 60) * 1000 + ms mod 1000 = ms"
      using T by simp
    ultimately show ?thesis by simp
  qed
  finally show ?thesis
    using t by simp
qed

lemma Date_of_string_toISOString:
  "valid_Date (Date t) \<Longrightarrow> Date_of_string (toISOString t) = Inr (Date t)"
  by (simp add: Date_of_string_def iso_time_toISOString TimeClip_def)
subsection \<open>Strings written by JSON.stringify are read back\<close>

lemma of_char_eq_iff_char_of: "n < 256 \<Longrightarrow> (of_char c :: nat) = n \<longleftrightarrow> c = char_of n"
proof
  assume "(of_char c :: nat) = n"
  then have "char_of (of_char c :: nat) = char_of n" by simp
  then show "c = char_of n" by simp
next
  assume "n < 256" and "c = char_of n"
  then show "(of_char c :: nat) = n" by simp
qed

lemma char_eqI_nat: "(of_char c :: nat) = of_char d \<Longrightarrow> c = d"
  by (rule of_char_eqI)

lemma hex_val_hex_char: "k < 16 \<Longrightarrow> hex_val (hex_char k) = Some k"
  by (simp add: hex_val_def hex_char_def Let_def)

lemma parse_chars_escape:
  "unescape e = Some c \<Longrightarrow> e \<noteq> CHR ''u'' \<Longrightarrow>
   parse_chars (CHR 0x5C # e # tail) =
     (case parse_chars tail of Inl err \<Rightarrow> Inl err | Inr (str, rest) \<Rightarrow> Inr (c # str, rest))"
  by simp

lemma parse_chars_u00:
  assumes "n < 32"
  shows "parse_chars (CHR 0x5C # CHR ''u'' # CHR ''0'' # CHR ''0'' # hex_char (n div 16)
           # hex_char (n mod 16) # tail) =
     (case parse_chars tail of
        Inl err \<Rightarrow> Inl err
      | Inr (str, rest) \<Rightarrow> Inr (char_of n # str, rest))"
proof -
  have "n div 16 < 16" using assms by simp
  then have h: "hex_val (hex_char (n div 16)) = Some (n div 16)"
    "hex_val (hex_char (n mod 16)) = Some (n mod 16)"
    by (simp_all add: hex_val_hex_char)
  have z: "hex_val CHR ''0'' = Some 0"
    by (simp add: hex_val_def)
  have e: "16 * (n div 16) + n mod 16 = n"
    by simp
  show ?thesis
    by (simp add: h z e split: sum.splits)
qed

lemma parse_chars_quote_char:
  "parse_chars (quote_char c @ tail) =
     (case parse_chars tail of Inl err \<Rightarrow> Inl err | Inr (str, rest) \<Rightarrow> Inr (c # str, rest))"
proof -
  define n where "n = (of_char c :: nat)"
  have c: "c = char_of n" by (simp add: n_def)
  consider "n = 8" | "n = 9" | "n = 10" | "n = 12" | "n = 13" | "n = 34" | "n = 92"
    | "n < 32" "n \<notin> {8, 9, 10, 12, 13}" | "32 \<le> n" "n \<noteq> 34" "n \<noteq> 92"
    by fastforce
  then show ?thesis
  proof cases
    case 1
    then have "c = CHR 0x08" by (intro char_eqI_nat) (simp add: n_def)
    then show ?thesis by (simp add: quote_char_def unescape_def split: sum.splits)
  next
    case 2
    then have "c = CHR 0x09" by (intro char_eqI_nat) (simp add: n_def)
    then show ?thesis by (simp add: quote_char_def unescape_def split: sum.splits)
  next
    case 3
    then have "c = CHR 0x0A" by (intro char_eqI_nat) (simp add: n_def)
    then show ?thesis by (simp add: quote_char_def unescape_def split: sum.splits)
  next
    case 4
    then have "c = CHR 0x0C" by (intro char_eqI_nat) (simp add: n_def)
    then show ?thesis by (simp add: quote_char_def unescape_def split: sum.splits)
  next
    case 5
    then have "c = CHR 0x0D" by (intro char_eqI_nat) (simp add: n_def)
    then show ?thesis by (simp add: quote_char_def unescape_def split: sum.splits)
  next
    case 6
    then have "c = CHR 0x22" by (intro char_eqI_nat) (simp add: n_def)
    then show ?thesis by (simp add: quote_char_def unescape_def split: sum.splits)
  next
    case 7
    then have "c = CHR 0x5C" by (intro char_eqI_nat) (simp add: n_def)
    then show ?thesis by (simp add: quote_char_def unescape_def split: sum.splits)
  next
    case 8
    then have q: "quote_char c = [CHR 0x5C, CHR ''u'', CHR ''0'', CHR ''0'',
        hex_char (n div 16), hex_char (n mod 16)]"
      by (auto simp: quote_char_def Let_def n_def[symmetric])
    show ?thesis
      unfolding q using parse_chars_u00[OF 8(1), of tail] c by (simp split: sum.splits)
  next
    case 9
    then have q: "quote_char c = [c]"
      by (auto simp: quote_char_def Let_def n_def[symmetric])
    have "c \<noteq> CHR 0x22" "c \<noteq> CHR 0x5C"
      using 9 by (auto simp: n_def)
    then show ?thesis
      unfolding q using 9(1) by (simp add: n_def[symmetric] split: sum.splits)
  qed
qed

lemma parse_chars_quoted:
  "parse_chars (concat (map quote_char s) @ CHR 0x22 # rest) = Inr (s, rest)"
  by (induction s) (simp_all add: parse_chars_quote_char)

subsection \<open>Numbers written by JSON.stringify are read back\<close>

lemma is_digit_digit_char: "d < 10 \<Longrightarrow> is_digit (digit_char d)"
  by (simp add: is_digit_def digit_val_digit_char)

lemma of_char_digit_char: "d < 10 \<Longrightarrow> (of_char (digit_char d) :: nat) = 48 + d"
  by (simp add: digit_char_def)

lemma nat_string_digits: "c \<in> set (nat_string n) \<Longrightarrow> \<exists>d < 10. c = digit_char d"
proof (induction n rule: nat_string.induct)
  case (1 n)
  show ?case
  proof (cases "n < 10")
    case True
    then show ?thesis using 1(2) by (auto simp: nat_string.simps[of n])
  next
    case False
    then have "c \<in> set (nat_string (n div 10)) \<or> c = digit_char (n mod 10)"
      using 1(2) by (auto simp: nat_string.simps[of n])
    then show ?thesis
    proof
      assume "c \<in> set (nat_string (n div 10))"
      then show ?thesis using 1(1) False by simp
    next
      assume "c = digit_char (n mod 10)"
      then show ?thesis by (intro exI[of _ "n mod 10"]) simp
    qed
  qed
qed

lemma nat_string_value: "digits_value (nat_string n) = Some n"
proof (induction n rule: nat_string.induct)
  case (1 n)
  show ?case
  proof (cases "n < 10")
    case True
    then show ?thesis
      by (simp add: nat_string.simps[of n] digits_value_def digit_val_digit_char)
  next
    case False
    then have "digits_acc 0 (nat_string (n div 10)) = Some (n div 10)"
      using 1 by (simp add: digits_value_def)
    then show ?thesis
      using False
      by (simp add: nat_string.simps[of n] digits_value_def digits_acc_snoc
            digit_val_digit_char)
  qed
qed

lemma nat_string_nonempty: "nat_string n \<noteq> []"
  by (simp add: nat_string.simps[of n])

lemma nat_string_no_leading_zero: "0 < n \<Longrightarrow> hd (nat_string n) \<noteq> CHR ''0''"
proof (induction n rule: nat_string.induct)
  case (1 n)
  show ?case
  proof (cases "n < 10")
    case True
    then have "(of_char (digit_char n) :: nat) \<noteq> of_char CHR ''0''"
      using 1(2) by (simp add: of_char_digit_char)
    then have "digit_char n \<noteq> CHR ''0''" by auto
    then show ?thesis using True by (simp add: nat_string.simps[of n])
  next
    case False
    then have "hd (nat_string (n div 10)) \<noteq> CHR ''0''"
      using 1 by simp
    then show ?thesis
      using False by (simp add: nat_string.simps[of n] nat_string_nonempty)
  qed
qed

lemma nat_string_long: "1 < length (nat_string n) \<Longrightarrow> 0 < n"
  by (cases "n < 10") (auto simp: nat_string.simps[of n])

lemma nat_string_head:
  "\<exists>d cs. d < 10 \<and> nat_string n = digit_char d # cs"
proof -
  obtain c cs where e: "nat_string n = c # cs"
    using nat_string_nonempty[of n] by (cases "nat_string n") auto
  then have "c \<in> set (nat_string n)" by simp
  then show ?thesis using nat_string_digits e by blast
qed
lemma digit_char_other:
  assumes "d < 10"
  shows "\<not> is_ws (digit_char d) \<and>
         digit_char d \<notin> {CHR ''n'', CHR ''t'', CHR ''f'', CHR 0x22, CHR ''['', CHR ''{'',
                         CHR '']'', CHR ''}'', CHR ''-''}"
proof -
  have "(of_char (digit_char d) :: nat) = 48 + d"
    using assms by (simp add: of_char_digit_char)
  then show ?thesis
    using assms by (auto simp: is_ws_def)
qed

lemma not_digit_separator:
  "\<not> is_digit CHR '',''" "\<not> is_digit CHR '']''" "\<not> is_digit CHR ''}''"
  by (simp_all add: is_digit_def digit_val_def)

lemma takeWhile_digits:
  assumes "\<forall>c \<in> set ds. is_digit c" "rest = [] \<or> \<not> is_digit (hd rest)"
  shows "takeWhile is_digit (ds @ rest) = ds \<and> dropWhile is_digit (ds @ rest) = rest"
proof -
  have "takeWhile is_digit rest = [] \<and> dropWhile is_digit rest = rest"
    using assms(2) by (cases rest) auto
  then show ?thesis
    using assms(1) by (simp add: takeWhile_append2 dropWhile_append2)
qed

lemma parse_number_int_string:
  assumes "rest = [] \<or> hd rest \<in> {CHR '','', CHR '']'', CHR ''}''}"
  shows "parse_number (int_string i @ rest) = Inr (JNumber i, rest)"
proof -
  define m where "m = nat \<bar>i\<bar>"
  define ds where "ds = nat_string m"
  have digs: "\<forall>c \<in> set ds. is_digit c"
    using nat_string_digits is_digit_digit_char unfolding ds_def by blast
  have sep: "rest = [] \<or> \<not> is_digit (hd rest)"
    using assms not_digit_separator by auto
  have tw: "takeWhile is_digit (ds @ rest) = ds" "dropWhile is_digit (ds @ rest) = rest"
    using takeWhile_digits[OF digs sep] by simp_all
  have ne: "ds \<noteq> []"
    by (simp add: ds_def nat_string_nonempty)
  have lead: "\<not> (1 < length ds \<and> hd ds = CHR ''0'')"
    using nat_string_long[of m] nat_string_no_leading_zero[of m] by (auto simp: ds_def)
  have val: "digits_value ds = Some m"
    by (simp add: ds_def nat_string_value)
  have frac: "\<not> (rest \<noteq> [] \<and> hd rest \<in> {CHR ''.'', CHR ''e'', CHR ''E''})"
    using assms by auto
  show ?thesis
  proof (cases "i < 0")
    case True
    then have s: "int_string i = CHR ''-'' # ds"
      by (simp add: int_string_def ds_def m_def)
    have "- int m = i" using True by (simp add: m_def)
    then show ?thesis
      unfolding s using tw ne lead val frac
      by (simp add: parse_number_def Let_def)
  next
    case False
    then have s: "int_string i = ds"
      by (simp add: int_string_def ds_def m_def)
    obtain d cs where d: "d < 10" "ds = digit_char d # cs"
      using nat_string_head[of m] unfolding ds_def by blast
    have nosign: "hd (ds @ rest) \<noteq> CHR ''-''"
      using d digit_char_other[of d] by simp
    have "int m = i" using False by (simp add: m_def)
    then show ?thesis
      unfolding s using tw ne lead val frac nosign
      by (simp add: parse_number_def Let_def)
  qed
qed

lemma digit_char_value_start:
  assumes "d < 10"
  shows "\<not> is_ws (digit_char d)" "digit_char d \<noteq> CHR ''n''" "digit_char d \<noteq> CHR ''t''"
    "digit_char d \<noteq> CHR ''f''" "digit_char d \<noteq> CHR 0x22" "digit_char d \<noteq> CHR ''[''"
    "digit_char d \<noteq> CHR ''{''" "digit_char d \<noteq> CHR '']''" "digit_char d \<noteq> CHR ''}''"
  using digit_char_other[OF assms] by simp_all

lemma int_string_head:
  obtains c cs where "int_string i = c # cs" "\<not> is_ws c" "c \<noteq> CHR ''n''" "c \<noteq> CHR ''t''"
    "c \<noteq> CHR ''f''" "c \<noteq> CHR 0x22" "c \<noteq> CHR ''[''" "c \<noteq> CHR ''{''" "c \<noteq> CHR '']''"
    "c \<noteq> CHR ''}''"
proof (cases "i < 0")
  case True
  then have "int_string i = CHR ''-'' # nat_string (nat (- i))"
    by (simp add: int_string_def)
  then show ?thesis
    by (rule that) (simp_all add: is_ws_def)
next
  case False
  obtain d cs where d: "d < 10" "nat_string (nat i) = digit_char d # cs"
    using nat_string_head by blast
  have "int_string i = digit_char d # cs"
    using False d(2) by (simp add: int_string_def)
  then show ?thesis
    by (rule that) (rule digit_char_value_start[OF d(1)])+
qed

lemma parse_value_other:
  "\<not> is_ws c \<Longrightarrow> c \<noteq> CHR ''n'' \<Longrightarrow> c \<noteq> CHR ''t'' \<Longrightarrow> c \<noteq> CHR ''f'' \<Longrightarrow>
   c \<noteq> CHR 0x22 \<Longrightarrow> c \<noteq> CHR ''['' \<Longrightarrow> c \<noteq> CHR ''{'' \<Longrightarrow>
   parse_value (Suc n) (c # cs) = parse_number (c # cs)"
  by simp

lemma parse_value_number:
  assumes "rest = [] \<or> hd rest \<in> {CHR '','', CHR '']'', CHR ''}''}"
  shows "parse_value (Suc n) (int_string i @ rest) = Inr (JNumber i, rest)"
proof -
  obtain c cs where c: "int_string i = c # cs" and ws: "\<not> is_ws c"
    and other: "c \<noteq> CHR ''n''" "c \<noteq> CHR ''t''" "c \<noteq> CHR ''f''" "c \<noteq> CHR 0x22"
      "c \<noteq> CHR ''[''" "c \<noteq> CHR ''{''"
    by (rule int_string_head)
  have "parse_value (Suc n) (c # (cs @ rest)) = parse_number (c # (cs @ rest))"
    using ws other by (rule parse_value_other)
  then have "parse_value (Suc n) (int_string i @ rest) = parse_number (int_string i @ rest)"
    by (simp only: c append_Cons)
  then show ?thesis
    by (simp only: parse_number_int_string[OF assms])
qed

subsection \<open>Values written by JSON.stringify are read back\<close>

lemma stringify_head:
  "\<exists>c cs. JSON_stringify j = c # cs \<and> \<not> is_ws c \<and> c \<noteq> CHR '']'' \<and> c \<noteq> CHR ''}''"
proof (cases j)
  case (JNumber i)
  obtain c cs where "int_string i = c # cs" "\<not> is_ws c" "c \<noteq> CHR '']''" "c \<noteq> CHR ''}''"
    by (rule int_string_head)
  then show ?thesis using JNumber by simp
qed (auto simp: is_ws_def QuoteJSONString_def)

lemma stringify_elements_head:
  "xs \<noteq> [] \<Longrightarrow>
   \<exists>c cs. stringify_elements xs = c # cs \<and> \<not> is_ws c \<and> c \<noteq> CHR '']''"
proof (cases xs)
  case Nil
  assume "xs \<noteq> []"
  with Nil show ?thesis by simp
next
  case (Cons x ys)
  obtain c cs where "JSON_stringify x = c # cs" "\<not> is_ws c" "c \<noteq> CHR '']''"
    using stringify_head by blast
  then show ?thesis
    using Cons by (cases ys) auto
qed

lemma stringify_members_head:
  "ms \<noteq> [] \<Longrightarrow> \<exists>cs. stringify_members ms = CHR 0x22 # cs"
proof (cases ms)
  case Nil
  assume "ms \<noteq> []"
  with Nil show ?thesis by simp
next
  case (Cons m ys)
  then show ?thesis
    by (cases m; cases ys) (auto simp: QuoteJSONString_def)
qed

lemma parse_value_literals:
  "parse_value (Suc n) (''null'' @ rest) = Inr (JNull, rest)"
  "parse_value (Suc n) (''true'' @ rest) = Inr (JBool True, rest)"
  "parse_value (Suc n) (''false'' @ rest) = Inr (JBool False, rest)"
  by (simp_all add: is_ws_def parse_literal_def)

lemma parse_value_string:
  "parse_value (Suc n) (QuoteJSONString s @ rest) = Inr (JString s, rest)"
  by (simp add: QuoteJSONString_def is_ws_def parse_chars_quoted)

lemma parse_value_array:
  assumes "xs \<noteq> [] \<Longrightarrow>
           parse_elements n (stringify_elements xs @ CHR '']'' # rest) = Inr (xs, rest)"
  shows "parse_value (Suc n) (CHR ''['' # stringify_elements xs @ CHR '']'' # rest) =
           Inr (JArray xs, rest)"
proof (cases "xs = []")
  case True
  then show ?thesis by (simp add: is_ws_def)
next
  case False
  then obtain c cs where c: "stringify_elements xs = c # cs" "\<not> is_ws c" "c \<noteq> CHR '']''"
    using stringify_elements_head by blast
  have "skip_ws (stringify_elements xs @ CHR '']'' # rest) = c # cs @ CHR '']'' # rest"
    using c by simp
  then show ?thesis
    using assms[OF False] c(3) by (simp add: is_ws_def)
qed

lemma parse_value_object:
  assumes "ms \<noteq> [] \<Longrightarrow>
           parse_members n (stringify_members ms @ CHR ''}'' # rest) = Inr (ms, rest)"
  shows "parse_value (Suc n) (CHR ''{'' # stringify_members ms @ CHR ''}'' # rest) =
           Inr (JObject ms, rest)"
proof (cases "ms = []")
  case True
  then show ?thesis by (simp add: is_ws_def)
next
  case False
  then obtain cs where c: "stringify_members ms = CHR 0x22 # cs"
    using stringify_members_head by blast
  have "skip_ws (stringify_members ms @ CHR ''}'' # rest) = CHR 0x22 # cs @ CHR ''}'' # rest"
    using c by (simp add: is_ws_def)
  then show ?thesis
    using assms[OF False] by (simp add: is_ws_def)
qed

lemma parse_elements_step:
  assumes "parse_value n (JSON_stringify x @ sep # tail) = Inr (x, sep # tail)"
  shows "sep = CHR '']'' \<Longrightarrow>
           parse_elements (Suc n) (JSON_stringify x @ sep # tail) = Inr ([x], tail)"
    and "sep = CHR '','' \<Longrightarrow>
           parse_elements (Suc n) (JSON_stringify x @ sep # tail) =
             (case parse_elements n tail of
                Inl err \<Rightarrow> Inl err
              | Inr (vs, rest) \<Rightarrow> Inr (x # vs, rest))"
  using assms by (simp_all add: is_ws_def)

lemma parse_members_step:
  assumes "parse_value n (JSON_stringify v @ sep # tail) = Inr (v, sep # tail)"
  shows "sep = CHR ''}'' \<Longrightarrow>
           parse_members (Suc n)
             (QuoteJSONString k @ CHR '':'' # JSON_stringify v @ sep # tail) =
             Inr ([(k, v)], tail)"
    and "sep = CHR '','' \<Longrightarrow>
           parse_members (Suc n)
             (QuoteJSONString k @ CHR '':'' # JSON_stringify v @ sep # tail) =
             (case parse_members n tail of
                Inl err \<Rightarrow> Inl err
              | Inr (ms, rest) \<Rightarrow> Inr ((k, v) # ms, rest))"
  using assms by (simp_all add: is_ws_def QuoteJSONString_def parse_chars_quoted)
lemma parse_stringify:
  "\<forall>n rest. length (JSON_stringify j) \<le> n \<longrightarrow>
       (rest = [] \<or> hd rest \<in> {CHR '','', CHR '']'', CHR ''}''}) \<longrightarrow>
       parse_value n (JSON_stringify j @ rest) = Inr (j, rest)"
  "xs \<noteq> [] \<longrightarrow>
     (\<forall>n rest. length (stringify_elements xs) < n \<longrightarrow>
        parse_elements n (stringify_elements xs @ CHR '']'' # rest) = Inr (xs, rest))"
  "ms \<noteq> [] \<longrightarrow>
     (\<forall>n rest. length (stringify_members ms) < n \<longrightarrow>
        parse_members n (stringify_members ms @ CHR ''}'' # rest) = Inr (ms, rest))"
proof (induction j and xs and ms rule: JSON_stringify_stringify_elements_stringify_members.induct)
  case 1
  show ?case
  proof (intro allI impI)
    fix n rest
    assume "length (JSON_stringify JNull) \<le> n"
    then obtain n' where "n = Suc n'" by (cases n) auto
    then show "parse_value n (JSON_stringify JNull @ rest) = Inr (JNull, rest)"
      using parse_value_literals(1)[of n' rest] by simp
  qed
next
  case (2 b)
  show ?case
  proof (intro allI impI)
    fix n rest
    assume "length (JSON_stringify (JBool b)) \<le> n"
    then obtain n' where "n = Suc n'" by (cases n) (auto split: if_splits)
    then show "parse_value n (JSON_stringify (JBool b) @ rest) = Inr (JBool b, rest)"
      using parse_value_literals(2,3)[of n' rest] by (cases b) simp_all
  qed
next
  case (3 i)
  show ?case
  proof (intro allI impI)
    fix n rest
    assume len: "length (JSON_stringify (JNumber i)) \<le> n"
      and sep: "rest = [] \<or> hd rest \<in> {CHR '','', CHR '']'', CHR ''}''}"
    obtain c cs where "int_string i = c # cs" by (rule int_string_head)
    then obtain n' where "n = Suc n'" using len by (cases n) auto
    then show "parse_value n (JSON_stringify (JNumber i) @ rest) = Inr (JNumber i, rest)"
      using parse_value_number[OF sep, of n' i] by simp
  qed
next
  case (4 s)
  show ?case
  proof (intro allI impI)
    fix n rest
    assume "length (JSON_stringify (JString s)) \<le> n"
    then obtain n' where "n = Suc n'" by (cases n) (auto simp: QuoteJSONString_def)
    then show "parse_value n (JSON_stringify (JString s) @ rest) = Inr (JString s, rest)"
      using parse_value_string[of n' s rest] by simp
  qed
next
  case (5 xs)
  show ?case
  proof (intro allI impI)
    fix n rest
    assume "length (JSON_stringify (JArray xs)) \<le> n"
    then obtain n' where n: "n = Suc n'" "length (stringify_elements xs) < n'"
      by (cases n) auto
    have "parse_value (Suc n') (CHR ''['' # stringify_elements xs @ CHR '']'' # rest) =
            Inr (JArray xs, rest)"
      using 5 n(2) by (intro parse_value_array) simp
    then show "parse_value n (JSON_stringify (JArray xs) @ rest) = Inr (JArray xs, rest)"
      using n(1) by simp
  qed
next
  case (6 ms)
  show ?case
  proof (intro allI impI)
    fix n rest
    assume "length (JSON_stringify (JObject ms)) \<le> n"
    then obtain n' where n: "n = Suc n'" "length (stringify_members ms) < n'"
      by (cases n) auto
    have "parse_value (Suc n') (CHR ''{'' # stringify_members ms @ CHR ''}'' # rest) =
            Inr (JObject ms, rest)"
      using 6 n(2) by (intro parse_value_object) simp
    then show "parse_value n (JSON_stringify (JObject ms) @ rest) = Inr (JObject ms, rest)"
      using n(1) by simp
  qed
next
  case 7
  show ?case by simp
next
  case (8 x)
  show ?case
  proof (intro allI impI)
    fix n rest
    assume "length (stringify_elements [x]) < n"
    then obtain n' where n: "n = Suc n'" "length (JSON_stringify x) \<le> n'"
      by (cases n) auto
    have "parse_value n' (JSON_stringify x @ CHR '']'' # rest) = Inr (x, CHR '']'' # rest)"
      using 8 n(2) by simp
    then show "parse_elements n (stringify_elements [x] @ CHR '']'' # rest) = Inr ([x], rest)"
      using parse_elements_step(1)[of n' x "CHR '']''" rest] n(1) by simp
  qed
next
  case (9 x y ys)
  show ?case
  proof (intro allI impI)
    fix n rest
    let ?tail = "stringify_elements (y # ys) @ CHR '']'' # rest"
    assume "length (stringify_elements (x # y # ys)) < n"
    then obtain n' where n: "n = Suc n'" "length (JSON_stringify x) \<le> n'"
      "length (stringify_elements (y # ys)) < n'"
      by (cases n) auto
    have "parse_value n' (JSON_stringify x @ CHR '','' # ?tail) = Inr (x, CHR '','' # ?tail)"
      using 9(1) n(2) by simp
    then have "parse_elements (Suc n') (JSON_stringify x @ CHR '','' # ?tail) =
        (case parse_elements n' ?tail of
           Inl err \<Rightarrow> Inl err
         | Inr (vs, r) \<Rightarrow> Inr (x # vs, r))"
      by (intro parse_elements_step(2)) simp_all
    moreover have "parse_elements n' ?tail = Inr (y # ys, rest)"
      using 9(2) n(3) by simp
    ultimately show "parse_elements n (stringify_elements (x # y # ys) @ CHR '']'' # rest) =
        Inr (x # y # ys, rest)"
      using n(1) by simp
  qed
next
  case 10
  show ?case by simp
next
  case (11 k v)
  show ?case
  proof (intro allI impI)
    fix n rest
    assume "length (stringify_members [(k, v)]) < n"
    then obtain n' where n: "n = Suc n'" "length (JSON_stringify v) \<le> n'"
      by (cases n) auto
    have "parse_value n' (JSON_stringify v @ CHR ''}'' # rest) = Inr (v, CHR ''}'' # rest)"
      using 11 n(2) by simp
    then show "parse_members n (stringify_members [(k, v)] @ CHR ''}'' # rest) =
        Inr ([(k, v)], rest)"
      using parse_members_step(1)[of n' v "CHR ''}''" rest k] n(1) by simp
  qed
next
  case (12 k v m ms)
  show ?case
  proof (intro allI impI)
    fix n rest
    let ?tail = "stringify_members (m # ms) @ CHR ''}'' # rest"
    assume "length (stringify_members ((k, v) # m # ms)) < n"
    then obtain n' where n: "n = Suc n'" "length (JSON_stringify v) \<le> n'"
      "length (stringify_members (m # ms)) < n'"
      by (cases n) auto
    have "parse_value n' (JSON_stringify v @ CHR '','' # ?tail) = Inr (v, CHR '','' # ?tail)"
      using 12(1) n(2) by simp
    then have "parse_members (Suc n')
          (QuoteJSONString k @ CHR '':'' # JSON_stringify v @ CHR '','' # ?tail) =
        (case parse_members n' ?tail of
           Inl err \<Rightarrow> Inl err
         | Inr (ms', r) \<Rightarrow> Inr ((k, v) # ms', r))"
      by (intro parse_members_step(2)) simp_all
    moreover have "parse_members n' ?tail = Inr (m # ms, rest)"
      using 12(2) n(3) by simp
    ultimately show "parse_members n (stringify_members ((k, v) # m # ms) @ CHR ''}'' # rest) =
        Inr ((k, v) # m # ms, rest)"
      using n(1) by simp
  qed
qed

lemma JSON_parse_stringify: "JSON_parse (JSON_stringify j) = Inr j"
  using parse_stringify(1)[of j] by (simp add: JSON_parse_def)
subsection \<open>Saving and loading\<close>

lemma new_Date_of_toJSON:
  "valid_Date d \<Longrightarrow> new_Date_of (Some (Date_toJSON d)) = Inr d"
  by (cases d) (simp_all add: Date_of_string_toISOString)

lemma rehydrate_toJSON:
  assumes "valid_Date (createdAt t)" "valid_Date (updatedAt t)"
  shows "rehydrate (Task_toJSON t) = Inr t"
  using new_Date_of_toJSON[OF assms(1)] new_Date_of_toJSON[OF assms(2)]
  by (simp add: rehydrate_def Task_toJSON_def property_def)

lemma map_rehydrate_toJSON:
  "\<forall>t \<in> set ts. valid_Date (createdAt t) \<and> valid_Date (updatedAt t) \<Longrightarrow>
   map_rehydrate (map Task_toJSON ts) = Inr ts"
  by (induction ts) (simp_all add: rehydrate_toJSON)

lemma storage_saveTasks:
  "storage (saveTasks w) STORAGE_KEY = Some (JSON_stringify (tasks_toJSON (tasks w)))"
  by (simp add: saveTasks_eq)

lemma loadTasks_stored:
  assumes "storage v STORAGE_KEY = Some (JSON_stringify (tasks_toJSON ts))"
    and "\<forall>t \<in> set ts. valid_Date (createdAt t) \<and> valid_Date (updatedAt t)"
  shows "loadTasks v = Inr (setTasks ts v)"
proof -
  have "JSON_stringify (tasks_toJSON ts) \<noteq> []"
    by (simp add: tasks_toJSON_def)
  moreover have "JSON_parse (JSON_stringify (tasks_toJSON ts)) = Inr (JArray (map Task_toJSON ts))"
    by (simp only: JSON_parse_stringify tasks_toJSON_def)
  ultimately show ?thesis
    using assms by (simp add: loadTasks_def getItem_def map_rehydrate_toJSON)
qed

lemma tasks_setTasks: "tasks (setTasks ts w) = ts"
  by (simp add: setTasks_eq)

section \<open>The claims\<close>

text \<open>
  C1, as the claim states it, fails for a listener that is registered more than once:
  attach does not look for an earlier registration and notify calls update once for each
  entry of the list. In \<open>example_world\<close> listener 1 is registered twice, and one
  createTask calls its update callback twice.
\<close>

theorem C1_counterexample:
  "observers example_world = [1, 2, 1] \<and>
   count_list (observers example_world) 1 = 2 \<and>
   times_notified 1 example_world (snd (createTask ''Buy milk'' [] LOW example_world)) = 2"
  by (simp add: times_notified_def createTask_eq Let_def example_world_def)

text \<open>
  C1, amended. For every mutating operation (createTask, updateTask, deleteTask, and
  changeTaskState with a target state of the enumeration) each currently registered
  listener's update callback is invoked exactly once for each of its registrations (so
  exactly once for a listener that is registered once), every time with the collection
  the store holds after the operation, and the storage port's setItem is invoked exactly
  once. changeTaskState delegates to updateTask and still notifies and persists once.
\<close>

theorem C1_mutations_notify_and_persist_once:
  "(let w' = snd (createTask ttl descr prio w) in
      one_notification_one_persist w w' \<and>
      (\<forall>l. times_notified l w w' = count_list (observers w) l)) \<and>
   (let w' = updateTask task w in
      one_notification_one_persist w w' \<and>
      (\<forall>l. times_notified l w w' = count_list (observers w) l)) \<and>
   (let w' = deleteTask taskId w in
      one_notification_one_persist w w' \<and>
      (\<forall>l. times_notified l w w' = count_list (observers w) l)) \<and>
   (newState \<in> TaskState_values \<longrightarrow>
     (let w' = snd (changeTaskState task newState w) in
      one_notification_one_persist w w' \<and>
      (\<forall>l. times_notified l w w' = count_list (observers w) l)))"
  unfolding Let_def
  using once_createTask once_updateTask once_deleteTask once_changeTaskState
    once_times_notified
  by blast

theorem C1_witness:
  "IN_PROGRESS \<in> TaskState_values \<and>
   one_notification_one_persist example_world
     (snd (changeTaskState example_task IN_PROGRESS example_world)) \<and>
   times_notified 2 example_world
     (snd (changeTaskState example_task IN_PROGRESS example_world)) = 1 \<and>
   length (setItemCalls (snd (changeTaskState example_task IN_PROGRESS example_world))) = 1"
proof -
  have h: "IN_PROGRESS \<in> TaskState_values"
    by (simp add: TaskState_values_def)
  show ?thesis
    using h C1_mutations_notify_and_persist_once
      [where w = example_world and newState = IN_PROGRESS and task = example_task]
    by (simp add: Let_def one_notification_one_persist_def example_world_def)
qed

text \<open>
  C2. For every task and every state S of the enumeration, changeTaskState selects the
  handler by S and not by the task's current state (the outcome is the same whatever the
  current state is), the task object gets state S and the clock's reading as updatedAt,
  the update then goes through updateTask on that task, with one round of notifications
  and one persist, and every stored task with the task's id ends in state S. No relation
  between S and the current state is required.
\<close>

theorem C2_changeTaskState_sets_target_state:
  "S \<in> TaskState_values \<Longrightarrow> changeTaskState t S w = (t', w') \<Longrightarrow>
     getHandlerForState S \<noteq> None \<and>
     handleState (the (getHandlerForState S)) t w = (t', w\<lparr>ticks := Suc (ticks w)\<rparr>) \<and>
     changeTaskState (t\<lparr>state := s0\<rparr>) S w = (t', w') \<and>
     t' = t\<lparr>state := S, updatedAt := Date (clock w (ticks w))\<rparr> \<and>
     w' = updateTask t' (w\<lparr>ticks := Suc (ticks w)\<rparr>) \<and>
     one_notification_one_persist w w' \<and>
     (\<forall>u \<in> set (tasks w'). task_id u = task_id t \<longrightarrow> state u = S)"
proof -
  assume S: "S \<in> TaskState_values" and run: "changeTaskState t S w = (t', w')"
  from getHandlerForState_values[OF S] obtain h where h: "getHandlerForState S = Some h"
    by blast
  have t': "t' = t\<lparr>state := S, updatedAt := Date (clock w (ticks w))\<rparr>"
    and w': "w' = updateTask t' (w\<lparr>ticks := Suc (ticks w)\<rparr>)"
    using run changeTaskState_eq[OF S, of t w] by auto
  have same: "changeTaskState (t\<lparr>state := s0\<rparr>) S w = (t', w')"
    using changeTaskState_eq[OF S, of "t\<lparr>state := s0\<rparr>" w] t' w' by simp
  have once: "one_notification_one_persist w w'"
    using once_changeTaskState[OF S, of w t] run by simp
  have stored: "\<forall>u \<in> set (tasks w'). task_id u = task_id t \<longrightarrow> state u = S"
  proof (intro ballI impI)
    fix u
    assume "u \<in> set (tasks w')" and "task_id u = task_id t"
    then have "state u = state t'"
      using updateTask_map_state[of u t' "tasks w" "w\<lparr>ticks := Suc (ticks w)\<rparr>"]
      by (simp add: w' tasks_updateTask t')
    then show "state u = S" by (simp add: t')
  qed
  show ?thesis
    using h handleState_eq[OF h, of t w] t' w' same once stored by simp
qed

theorem C2_witness:
  "POSTPONED \<in> TaskState_values \<and>
   getPossibleNextState example_task = None \<and>
   getPossiblePreviousState example_task = Some IN_PROGRESS \<and>
   state (fst (changeTaskState example_task POSTPONED example_world)) = POSTPONED \<and>
   map state (tasks (snd (changeTaskState example_task POSTPONED example_world))) =
     [POSTPONED, NEW]"
proof -
  have h: "POSTPONED \<in> TaskState_values"
    by (simp add: TaskState_values_def)
  obtain t' w' where run: "changeTaskState example_task POSTPONED example_world = (t', w')"
    by (cases "changeTaskState example_task POSTPONED example_world")
  have table: "getPossibleNextState example_task = None"
    "getPossiblePreviousState example_task = Some IN_PROGRESS"
    by (simp_all add: getPossibleNextState_def getPossiblePreviousState_def
          getHandlerForState_def example_task_def NEW_def IN_PROGRESS_def COMPLETED_def
          POSTPONED_def)
  have "map state (tasks w') = [POSTPONED, NEW]"
    using C2_changeTaskState_sets_target_state[OF h run]
    by (simp add: tasks_updateTask example_world_def example_task_def other_task_def
          split_beta)
  moreover have "state t' = POSTPONED"
    using C2_changeTaskState_sets_target_state[OF h run] by simp
  ultimately show ?thesis
    using h run table by simp
qed

text \<open>
  C3. getPossibleNextState and getPossiblePreviousState are functions of the task's
  current state alone (they take no world and return none) and give the advisory table:
  NEW: next IN_PROGRESS, previous none; IN_PROGRESS: next COMPLETED, previous NEW;
  COMPLETED: next none, previous IN_PROGRESS; POSTPONED: next IN_PROGRESS, previous NEW.
\<close>

theorem C3_advisory_table:
  "getPossibleNextState (t\<lparr>state := NEW\<rparr>) = Some IN_PROGRESS \<and>
   getPossiblePreviousState (t\<lparr>state := NEW\<rparr>) = None \<and>
   getPossibleNextState (t\<lparr>state := IN_PROGRESS\<rparr>) = Some COMPLETED \<and>
   getPossiblePreviousState (t\<lparr>state := IN_PROGRESS\<rparr>) = Some NEW \<and>
   getPossibleNextState (t\<lparr>state := COMPLETED\<rparr>) = None \<and>
   getPossiblePreviousState (t\<lparr>state := COMPLETED\<rparr>) = Some IN_PROGRESS \<and>
   getPossibleNextState (t\<lparr>state := POSTPONED\<rparr>) = Some IN_PROGRESS \<and>
   getPossiblePreviousState (t\<lparr>state := POSTPONED\<rparr>) = Some NEW"
  by (simp add: getPossibleNextState_def getPossiblePreviousState_def getHandlerForState_def
        NEW_def IN_PROGRESS_def COMPLETED_def POSTPONED_def)

text \<open>
  C4, as the claim states it, fails: updateTask stamps updatedAt with the clock's reading
  and compares it with nothing. In \<open>late_stamp_world\<close> the store holds a task stamped
  1650000000000 while the clock reads 1640000000000 (a store loaded from a blob written
  under a clock that was ahead, or a clock that was set back); after updateTask the stored
  task carries 1640000000000, which is earlier than the stamp it had.
\<close>

theorem C4_counterexample:
  "task_id (tasks late_stamp_world ! 0) = task_id example_task \<and>
   updatedAt (tasks late_stamp_world ! 0) = Date 1650000000000 \<and>
   updatedAt (tasks (updateTask example_task late_stamp_world) ! 0) = Date 1640000000000 \<and>
   \<not> date_ge (updatedAt (tasks (updateTask example_task late_stamp_world) ! 0))
              (updatedAt (tasks late_stamp_world ! 0))"
  by (simp add: tasks_updateTask late_stamp_world_def example_world_def example_task_def
        other_task_def slow_clock_def split_beta new_Date_def)

text \<open>
  C4, amended. For every call updateTask(t): the collection keeps its length; each stored
  task whose id equals t.id is replaced by t with updatedAt set to a reading the clock
  gives during the call, whatever updatedAt the caller supplied in t; that value is greater
  than or equal to the task's updatedAt before the call provided the clock is monotone and
  its reading at the start of the call is not earlier than that stored updatedAt; if no
  stored task has the id, the collection is unchanged; in both cases there is one round of
  notifications and one persist.
\<close>

theorem C4_updateTask_stamps:
  "length (tasks (updateTask t w)) = length (tasks w) \<and>
   (\<forall>i < length (tasks w). task_id (tasks w ! i) = task_id t \<longrightarrow>
      (\<exists>k. ticks w \<le> k \<and> k < ticks (updateTask t w) \<and>
           tasks (updateTask t w) ! i = t\<lparr>updatedAt := Date (clock w k)\<rparr>) \<and>
      (mono (clock w) \<and> date_ge (Date (clock w (ticks w))) (updatedAt (tasks w ! i)) \<longrightarrow>
         date_ge (updatedAt (tasks (updateTask t w) ! i)) (updatedAt (tasks w ! i)))) \<and>
   tasks (updateTask (t\<lparr>updatedAt := x\<rparr>) w) = tasks (updateTask t w) \<and>
   (task_id t \<notin> task_id ` set (tasks w) \<longrightarrow> tasks (updateTask t w) = tasks w) \<and>
   one_notification_one_persist w (updateTask t w)"
proof -
  have stamp: "\<forall>i < length (tasks w). task_id (tasks w ! i) = task_id t \<longrightarrow>
      (\<exists>k. ticks w \<le> k \<and> k < ticks (updateTask t w) \<and>
           tasks (updateTask t w) ! i = t\<lparr>updatedAt := Date (clock w k)\<rparr>) \<and>
      (mono (clock w) \<and> date_ge (Date (clock w (ticks w))) (updatedAt (tasks w ! i)) \<longrightarrow>
         date_ge (updatedAt (tasks (updateTask t w) ! i)) (updatedAt (tasks w ! i)))"
  proof (intro allI impI)
    fix i
    assume i: "i < length (tasks w)" and m: "task_id (tasks w ! i) = task_id t"
    from updateTask_stamp[OF i m] obtain k where k: "ticks w \<le> k"
      "k < ticks (updateTask t w)"
      "tasks (updateTask t w) ! i = t\<lparr>updatedAt := Date (clock w k)\<rparr>"
      by blast
    have "date_ge (updatedAt (tasks (updateTask t w) ! i)) (updatedAt (tasks w ! i))"
      if "mono (clock w) \<and> date_ge (Date (clock w (ticks w))) (updatedAt (tasks w ! i))"
    proof -
      have "clock w (ticks w) \<le> clock w k"
        using that k(1) by (simp add: monoD)
      then show ?thesis
        using that k(3) date_ge_trans by simp
    qed
    then show "(\<exists>k. ticks w \<le> k \<and> k < ticks (updateTask t w) \<and>
           tasks (updateTask t w) ! i = t\<lparr>updatedAt := Date (clock w k)\<rparr>) \<and>
      (mono (clock w) \<and> date_ge (Date (clock w (ticks w))) (updatedAt (tasks w ! i)) \<longrightarrow>
         date_ge (updatedAt (tasks (updateTask t w) ! i)) (updatedAt (tasks w ! i)))"
      using k by blast
  qed
  have "tasks (updateTask (t\<lparr>updatedAt := x\<rparr>) w) = tasks (updateTask t w)"
    by (simp add: tasks_updateTask updateTask_map_supplied)
  moreover have "task_id t \<notin> task_id ` set (tasks w) \<longrightarrow> tasks (updateTask t w) = tasks w"
    by (simp add: tasks_updateTask updateTask_map_absent)
  moreover have "length (tasks (updateTask t w)) = length (tasks w)"
    by (simp add: tasks_updateTask updateTask_map_length)
  ultimately show ?thesis
    using stamp once_updateTask by blast
qed

theorem C4_witness:
  "0 < length (tasks example_world) \<and>
   task_id (tasks example_world ! 0) = task_id example_task \<and>
   mono (clock example_world) \<and>
   date_ge (Date (clock example_world (ticks example_world)))
     (updatedAt (tasks example_world ! 0)) \<and>
   date_ge (updatedAt (tasks (updateTask example_task example_world) ! 0))
     (updatedAt (tasks example_world ! 0)) \<and>
   ''zz'' \<notin> task_id ` set (tasks example_world) \<and>
   tasks (updateTask (example_task\<lparr>task_id := ''zz''\<rparr>) example_world) = tasks example_world"
proof -
  have h: "0 < length (tasks example_world)"
    "task_id (tasks example_world ! 0) = task_id example_task"
    "date_ge (Date (clock example_world (ticks example_world)))
       (updatedAt (tasks example_world ! 0))"
    "''zz'' \<notin> task_id ` set (tasks example_world)"
    by (simp_all add: example_world_def example_task_def other_task_def example_clock_def)
  have m: "mono (clock example_world)"
    by (rule monoI) (simp add: example_world_def example_clock_def)
  show ?thesis
    using h m C4_updateTask_stamps[of example_task example_world]
      C4_updateTask_stamps[of "example_task\<lparr>task_id := ''zz''\<rparr>" example_world]
    by simp
qed




text \<open>
  C6, as the claim states it, fails: updateTask does not only re-stamp updatedAt, it
  replaces the stored task by the task it is given, createdAt included. From an empty store
  and under a monotone clock, createTask followed by updateTask of the created task with
  createdAt moved to 1800000000000 leaves a stored task created after it was updated.
\<close>

theorem C6_counterexample:
  "mono (clock empty_world) \<and> updated_after_created empty_world \<and>
   updated_after_created started_world \<and> clock started_world = clock empty_world \<and>
   task_id future_task = task_id (tasks started_world ! 0) \<and>
   createdAt (tasks (updateTask future_task started_world) ! 0) = Date 1800000000000 \<and>
   updatedAt (tasks (updateTask future_task started_world) ! 0) = Date 1700000001000 \<and>
   \<not> updated_after_created (updateTask future_task started_world)"
proof -
  have m: "mono (clock empty_world)"
    by (rule monoI) (simp add: empty_world_def example_clock_def)
  have rest: "updated_after_created empty_world \<and>
   updated_after_created started_world \<and> clock started_world = clock empty_world \<and>
   task_id future_task = task_id (tasks started_world ! 0) \<and>
   createdAt (tasks (updateTask future_task started_world) ! 0) = Date 1800000000000 \<and>
   updatedAt (tasks (updateTask future_task started_world) ! 0) = Date 1700000001000 \<and>
   \<not> updated_after_created (updateTask future_task started_world)"
    by (simp add: updated_after_created_def tasks_updateTask started_world_def
          future_task_def created_task_def createTask_eq Let_def empty_world_def
          example_clock_def split_beta new_Date_def)
  show ?thesis using m rest by simp
qed

text \<open>
  C6, amended. A task made by createTask has updatedAt equal to createdAt, and under a
  monotone clock every task held by the store satisfies updatedAt >= createdAt in every
  world reached from one where that holds (the empty store, for one) by createTask,
  deleteTask, attach, detach, and by updateTask and changeTaskState calls whose task
  argument has a createdAt not later than the clock's reading at the call.
\<close>

theorem C6_updated_after_created:
  "mono (clock w0) \<Longrightarrow> updated_after_created w0 \<Longrightarrow> reachable w0 w \<Longrightarrow>
     updated_after_created w \<and>
     date_ge (updatedAt (fst (createTask ttl descr prio w)))
             (createdAt (fst (createTask ttl descr prio w)))"
  using reachable_keeps_order by (simp add: createTask_eq Let_def)

theorem C6_witness:
  "mono (clock empty_world) \<and> updated_after_created empty_world \<and>
   reachable empty_world (snd (changeTaskState created_task IN_PROGRESS started_world)) \<and>
   updated_after_created (snd (changeTaskState created_task IN_PROGRESS started_world))"
proof -
  have m: "mono (clock empty_world)"
    by (rule monoI) (simp add: empty_world_def example_clock_def)
  have i: "updated_after_created empty_world"
    by (simp add: updated_after_created_def empty_world_def)
  have "reachable empty_world started_world"
    unfolding started_world_def by (rule reachable.create) (rule reachable.start)
  moreover have "timely created_task started_world"
    by (simp add: timely_def created_task_def started_world_def createTask_eq Let_def
          empty_world_def example_clock_def)
  ultimately have r:
    "reachable empty_world (snd (changeTaskState created_task IN_PROGRESS started_world))"
    by (rule reachable.change)
  show ?thesis
    using m i r C6_updated_after_created[OF m i r] by simp
qed

text \<open>
  C7, as the claim states it, fails for a collection that holds an invalid date (a Date
  whose time value is NaN, which the type of the fields admits and which loadTasks itself
  produces from a record without the property): JSON.stringify writes it as null, and
  new Date(null) is the epoch. The stored task with an invalid createdAt comes back with
  createdAt 1970-01-01T00:00:00.000Z.
\<close>

theorem C7_counterexample:
  "tasks undated_world = [undated_task] \<and> createdAt undated_task = InvalidDate \<and>
   map_sum id tasks (TaskService_new (saveTasks undated_world)) =
     Inr [undated_task\<lparr>createdAt := Date 0\<rparr>] \<and>
   undated_task\<lparr>createdAt := Date 0\<rparr> \<noteq> undated_task"
proof -
  let ?v = "(saveTasks undated_world)\<lparr>observers := [], tasks := []\<rparr>"
  have t: "tasks undated_world = [undated_task]"
    by (simp add: undated_world_def)
  have "valid_Date (updatedAt undated_task)"
    by (simp add: undated_task_def other_task_def maxTime_def)
  then have u: "new_Date_of (Some (Date_toJSON (updatedAt undated_task))) =
      Inr (updatedAt undated_task)"
    by (rule new_Date_of_toJSON)
  have c: "createdAt undated_task = InvalidDate"
    by (simp add: undated_task_def)
  have r: "rehydrate (Task_toJSON undated_task) = Inr (undated_task\<lparr>createdAt := Date 0\<rparr>)"
    using u by (simp add: rehydrate_def Task_toJSON_def property_def c)
  have "storage ?v STORAGE_KEY = Some (JSON_stringify (JArray [Task_toJSON undated_task]))"
    by (simp add: saveTasks_eq t tasks_toJSON_def)
  moreover have "JSON_stringify (JArray [Task_toJSON undated_task]) \<noteq> []"
    by simp
  moreover have "JSON_parse (JSON_stringify (JArray [Task_toJSON undated_task])) =
      Inr (JArray [Task_toJSON undated_task])"
    by (simp only: JSON_parse_stringify)
  ultimately have "loadTasks ?v = Inr (setTasks [undated_task\<lparr>createdAt := Date 0\<rparr>] ?v)"
    by (simp add: loadTasks_def getItem_def r)
  then have "map_sum id tasks (TaskService_new (saveTasks undated_world)) =
     Inr [undated_task\<lparr>createdAt := Date 0\<rparr>]"
    by (simp add: TaskService_new_def tasks_setTasks)
  moreover have "undated_task\<lparr>createdAt := Date 0\<rparr> \<noteq> undated_task"
    by (simp add: undated_task_def other_task_def)
  ultimately show ?thesis
    using t c by simp
qed

text \<open>
  C7, amended. For every task collection whose createdAt and updatedAt are valid dates:
  saveTasks stores its serialization under the key tasks, and loadTasks in any world whose
  storage holds that blob under the key (a service constructed over that storage, for one)
  sets the store to a collection equal to the saved one, task by task and field by field,
  the timestamps equal in value after their round trip through the ISO-8601 string.
\<close>

theorem C7_save_load_round_trip:
  "\<forall>t \<in> set (tasks w). valid_Date (createdAt t) \<and> valid_Date (updatedAt t) \<Longrightarrow>
     STORAGE_KEY = ''tasks'' \<and>
     storage (saveTasks w) STORAGE_KEY = Some (JSON_stringify (tasks_toJSON (tasks w))) \<and>
     (\<forall>v. storage v STORAGE_KEY = storage (saveTasks w) STORAGE_KEY \<longrightarrow>
          loadTasks v = Inr (setTasks (tasks w) v)) \<and>
     map_sum id tasks (TaskService_new (saveTasks w)) = Inr (tasks w)"
proof -
  assume valid: "\<forall>t \<in> set (tasks w). valid_Date (createdAt t) \<and> valid_Date (updatedAt t)"
  have load: "loadTasks v = Inr (setTasks (tasks w) v)"
    if "storage v STORAGE_KEY = storage (saveTasks w) STORAGE_KEY" for v
    using that valid by (intro loadTasks_stored) (simp_all add: storage_saveTasks)
  have "loadTasks ((saveTasks w)\<lparr>observers := [], tasks := []\<rparr>) =
      Inr (setTasks (tasks w) ((saveTasks w)\<lparr>observers := [], tasks := []\<rparr>))"
    by (rule load) simp
  then have new: "map_sum id tasks (TaskService_new (saveTasks w)) = Inr (tasks w)"
    by (simp add: TaskService_new_def tasks_setTasks)
  have key: "STORAGE_KEY = ''tasks''"
    by (simp add: STORAGE_KEY_def)
  have saved: "storage (saveTasks w) STORAGE_KEY = Some (JSON_stringify (tasks_toJSON (tasks w)))"
    by (rule storage_saveTasks)
  show ?thesis
    using key saved load new by (intro conjI allI impI)
qed

theorem C7_witness:
  "tasks example_world = [example_task, other_task] \<and>
   valid_Date (createdAt example_task) \<and> valid_Date (updatedAt example_task) \<and>
   valid_Date (createdAt other_task) \<and> valid_Date (updatedAt other_task) \<and>
   map_sum id tasks (TaskService_new (saveTasks example_world)) =
     Inr [example_task, other_task]"
proof -
  have v: "valid_Date (createdAt example_task)" "valid_Date (updatedAt example_task)"
    "valid_Date (createdAt other_task)" "valid_Date (updatedAt other_task)"
    by (simp_all add: example_task_def other_task_def maxTime_def)
  have t: "tasks example_world = [example_task, other_task]"
    by (simp add: example_world_def)
  have h: "\<forall>t \<in> set (tasks example_world). valid_Date (createdAt t) \<and> valid_Date (updatedAt t)"
    using v by (simp add: t)
  show ?thesis
    using v t C7_save_load_round_trip[OF h] by simp
qed

text \<open>
  C8. A listener receives, for each change of the collection, as many update calls as it
  is registered. attach adds one registration at the end without looking for an earlier
  one, so attaching a listener twice gives it two calls per change; detach removes the
  first registration of the listener and leaves the others in order, so a listener that
  was registered once receives no further call; detaching a listener that is not
  registered changes nothing.
\<close>

theorem C8_attach_detach:
  "times_notified l w (setTasks ts w) = count_list (observers w) l \<and>
   observers (attach l w) = observers w @ [l] \<and>
   count_list (observers (attach l w)) l = count_list (observers w) l + 1 \<and>
   times_notified l (attach l (attach l w)) (setTasks ts (attach l (attach l w))) =
     count_list (observers w) l + 2 \<and>
   observers (detach l w) = remove1 l (observers w) \<and>
   (l \<in> set (observers w) \<longrightarrow>
      count_list (observers (detach l w)) l = count_list (observers w) l - 1) \<and>
   (count_list (observers w) l = 1 \<longrightarrow>
      times_notified l (detach l w) (setTasks ts (detach l w)) = 0) \<and>
   (l \<notin> set (observers w) \<longrightarrow> detach l w = w)"
proof -
  have reg: "count_list (observers w) l = 1 \<Longrightarrow> l \<in> set (observers w)"
    by (metis count_notin zero_neq_one)
  show ?thesis
    using reg
    by (simp add: times_notified_setTasks detach_remove1 count_list_remove1
          detach_unregistered attach_def)
qed

theorem C8_witness:
  "2 \<in> set (observers example_world) \<and> count_list (observers example_world) 2 = 1 \<and>
   7 \<notin> set (observers example_world) \<and>
   observers (detach 2 example_world) = [1, 1] \<and>
   times_notified 2 (detach 2 example_world) (setTasks [] (detach 2 example_world)) = 0 \<and>
   detach 7 example_world = example_world"
proof -
  have h: "2 \<in> set (observers example_world)" "count_list (observers example_world) 2 = 1"
    "7 \<notin> set (observers example_world)"
    by (simp_all add: example_world_def)
  show ?thesis
    using h C8_attach_detach[of 2 example_world "[]"] C8_attach_detach[of 7 example_world "[]"]
    by (simp add: example_world_def)
qed

text \<open>
  C9. The priority lookup gives HIGH rank 3 and colour #ff4d4d, MEDIUM rank 2 and colour
  #ffa64d, LOW rank 1 and colour #4dff4d, and any value outside the enumeration the rank
  and colour of MEDIUM.
\<close>

theorem C9_priority_lookup:
  "getPriorityLevel (getStrategy HIGH) = 3 \<and> getColor (getStrategy HIGH) = ''#ff4d4d'' \<and>
   getPriorityLevel (getStrategy MEDIUM) = 2 \<and> getColor (getStrategy MEDIUM) = ''#ffa64d'' \<and>
   getPriorityLevel (getStrategy LOW) = 1 \<and> getColor (getStrategy LOW) = ''#4dff4d'' \<and>
   (p \<notin> TaskPriority_values \<longrightarrow>
      getPriorityLevel (getStrategy p) = getPriorityLevel (getStrategy MEDIUM) \<and>
      getColor (getStrategy p) = getColor (getStrategy MEDIUM))"
  by (simp add: getStrategy_def TaskPriority_values_def HIGH_def MEDIUM_def LOW_def)

theorem C9_witness:
  "''UNKNOWN'' \<notin> TaskPriority_values \<and>
   getPriorityLevel (getStrategy ''UNKNOWN'') = 2 \<and>
   getColor (getStrategy ''UNKNOWN'') = ''#ffa64d''"
proof -
  have h: "''UNKNOWN'' \<notin> TaskPriority_values"
    by (simp add: TaskPriority_values_def HIGH_def MEDIUM_def LOW_def)
  show ?thesis
    using h C9_priority_lookup[of "''UNKNOWN''"] by simp
qed

text \<open>
  C10. updateTask and deleteTask leave every stored task with another id as it is and keep
  the order: after updateTask the collection has the same length, the same ids at the same
  positions and, at each position whose task has another id, the same task; after
  deleteTask the collection is the old one without the tasks of the given id.
\<close>

theorem C10_frame:
  "length (tasks (updateTask t w)) = length (tasks w) \<and>
   map task_id (tasks (updateTask t w)) = map task_id (tasks w) \<and>
   (\<forall>i < length (tasks w).
      task_id (tasks w ! i) \<noteq> task_id t \<longrightarrow> tasks (updateTask t w) ! i = tasks w ! i) \<and>
   filter (\<lambda>u. task_id u \<noteq> task_id t) (tasks (updateTask t w)) =
     filter (\<lambda>u. task_id u \<noteq> task_id t) (tasks w) \<and>
   tasks (deleteTask taskId w) = filter (\<lambda>u. task_id u \<noteq> taskId) (tasks w) \<and>
   filter (\<lambda>u. task_id u \<noteq> taskId) (tasks (deleteTask taskId w)) =
     filter (\<lambda>u. task_id u \<noteq> taskId) (tasks w)"
  by (simp add: tasks_updateTask tasks_deleteTask updateTask_map_length updateTask_map_ids
        updateTask_map_others updateTask_map_nth)

theorem C10_witness:
  "1 < length (tasks example_world) \<and>
   task_id (tasks example_world ! 1) \<noteq> task_id example_task \<and>
   tasks (updateTask example_task example_world) ! 1 = other_task \<and>
   tasks (deleteTask ''a1'' example_world) = [other_task]"
proof -
  have h: "1 < length (tasks example_world)"
    "task_id (tasks example_world ! 1) \<noteq> task_id example_task"
    by (simp_all add: example_world_def example_task_def other_task_def)
  show ?thesis
    using h C10_frame[of example_task example_world "''a1''"]
    by (simp add: example_world_def example_task_def other_task_def)
qed

end
